theory Spec2Isabelle
  imports Main
begin

section \<open>The activation buffer of \<open>buffer.py\<close>\<close>

text \<open>
  \<open>ActivationBuffer\<close> keeps activation vectors taken from a language model together with
  one boolean flag per vector (\<open>read\<close>). \<open>__next__\<close> hands out a random batch of unread
  vectors and refreshes the buffer when fewer than half of \<open>n_ctxs * ctx_len\<close> are unread.

  Conventions of the embedding:
  \<^item> a tensor of shape \<open>(n, d)\<close> is the list of its \<open>n\<close> rows, a row being a value of the
    type variable \<open>'v\<close>, together with \<open>d\<close>; the \<open>d\<close> of \<open>activations\<close>, \<open>activations_in\<close>
    and \<open>activations_out\<close> are the fields \<open>width\<close>, \<open>width_in\<close> and \<open>width_out\<close>;
    \<open>len\<close> is \<open>length\<close>, and \<open>t.cat(..., dim=0)\<close> compares the shapes before it appends;
  \<^item> the text generator \<open>data\<close> is the list of the items it has not yielded yet;
  \<^item> the language model and the extraction point are a function from a text batch and
    \<open>max_length\<close> to the tapped tensors and the attention mask (or an exception);
  \<^item> \<open>t.randperm\<close> is an argument \<open>rp\<close>: \<open>rp n\<close> is the permutation drawn for size \<open>n\<close>;
  \<^item> every operation returns the exception or the value, paired with the object as the
    call leaves it, since a Python exception does not undo the assignments before it;
  \<^item> the \<open>while\<close> loops of the refresh may run forever, so the refresh functions return
    an option: \<open>None\<close> is a call that never returns;
  \<^item> the device of a tensor is left out, and so are \<open>__iter__\<close>, \<open>tokenized_batch\<close> and
    \<open>close\<close>, which touch neither the buffers nor the flags.
\<close>

subsection \<open>Exceptions, tensors and the traced model\<close>

datatype error = ValueError | StopIteration | TypeError | IndexError | AttributeError
  | RuntimeError | OverflowError

text \<open>What a tap holds: a tensor of shape \<open>(batch, position) + sh\<close>, given by \<open>sh\<close> and by
  its entry at each batch and position (a row of shape \<open>sh\<close>), or a tuple to be unwrapped.\<close>

datatype 'v tap = Tensor "int list" "'v list list" | Tuple "'v tap list"

record 'v traced =
  submodule_input :: "'v tap"
  submodule_output :: "'v tap"
  attention_mask :: "int list list"

record extraction_point =
  in_features :: "int option"
  out_features :: "int option"

text \<open>The result of \<open>.squeeze()\<close> on the \<open>(k, 1)\<close> index tensor of \<open>nonzero\<close>.\<close>

datatype idx_tensor = Dim0 nat | Dim1 "nat list"

datatype 'v batch = Single "'v list" | Pair "'v list" "'v list"

record ('v, 't) ActivationBuffer =
  activations :: "'v list option"
  activations_in :: "'v list option"
  activations_out :: "'v list option"
  width :: int
  width_in :: int
  width_out :: int
  read :: "bool list"
  data :: "'t list"
  model :: "'t list \<Rightarrow> int \<Rightarrow> error + 'v traced"
  submodule :: extraction_point
  io :: string
  n_ctxs :: int
  ctx_len :: int
  in_batch_size :: int
  out_batch_size :: int

subsection \<open>Tensor operations\<close>

text \<open>\<open>x.nonzero()\<close> on a boolean vector: the indices of its true entries, ascending.\<close>

definition nonzero :: "bool list \<Rightarrow> nat list" where
  "nonzero bs = filter (\<lambda>i. bs ! i) [0..<length bs]"

text \<open>\<open>.squeeze()\<close> drops the dimensions of size one: a single index becomes 0-dimensional.\<close>

definition squeeze :: "nat list \<Rightarrow> idx_tensor" where
  "squeeze xs = (case xs of [i] \<Rightarrow> Dim0 i | _ \<Rightarrow> Dim1 xs)"

text \<open>\<open>len\<close> of a 0-dimensional tensor raises \<open>TypeError\<close>.\<close>

fun len :: "idx_tensor \<Rightarrow> error + nat" where
  "len (Dim0 i) = Inl TypeError"
| "len (Dim1 xs) = Inr (length xs)"

text \<open>Python's \<open>xs[:k]\<close>; a negative \<open>k\<close> counts from the end.\<close>

definition slice_to :: "int \<Rightarrow> 'a list \<Rightarrow> 'a list" where
  "slice_to k xs = (if 0 \<le> k then take (nat k) xs else take (length xs - nat (- k)) xs)"

text \<open>\<open>x[idxs]\<close> along dimension 0 with an index vector; an index out of range raises.\<close>

definition index_rows :: "'a list \<Rightarrow> nat list \<Rightarrow> error + 'a list" where
  "index_rows xs js =
     (if list_all (\<lambda>j. j < length xs) js then Inr (map (\<lambda>j. xs ! j) js) else Inl IndexError)"

fun getitem :: "idx_tensor \<Rightarrow> nat list \<Rightarrow> error + nat list" where
  "getitem (Dim0 i) js = Inl IndexError"
| "getitem (Dim1 xs) js = index_rows xs js"

text \<open>\<open>x[idxs] = True\<close>.\<close>

definition index_put_True :: "bool list \<Rightarrow> nat list \<Rightarrow> error + bool list" where
  "index_put_True bs js =
     (if list_all (\<lambda>j. j < length bs) js then Inr (fold (\<lambda>j r. r[j := True]) js bs)
      else Inl IndexError)"

text \<open>\<open>x[mask]\<close> with a boolean mask over dimension 0: the shapes have to agree.\<close>

definition mask_index :: "'a list \<Rightarrow> bool list \<Rightarrow> error + 'a list" where
  "mask_index xs m =
     (if length m = length xs then Inr (map fst (filter snd (zip xs m))) else Inl IndexError)"

text \<open>\<open>h[attention_mask != 0]\<close>: a mask over the first two dimensions; the kept positions
  come out in row-major order.\<close>

definition mask_index2 :: "'a list list \<Rightarrow> int list list \<Rightarrow> error + 'a list" where
  "mask_index2 h am =
     (if map length am = map length h
      then Inr (concat (map (\<lambda>(r, mr). map fst (filter (\<lambda>(v, a). a \<noteq> 0) (zip r mr))) (zip h am)))
      else Inl IndexError)"

text \<open>\<open>while type(h.shape) == tuple: h = h[0]\<close>.\<close>

fun unwrap :: "'v tap \<Rightarrow> error + int list \<times> 'v list list" where
  "unwrap (Tensor sh h) = Inr (sh, h)"
| "unwrap (Tuple []) = Inl IndexError"
| "unwrap (Tuple (x # xs)) = unwrap x"

text \<open>
  \<open>t.cat([a, new], dim=0)\<close> for a buffer \<open>a\<close> of shape \<open>(n, w)\<close> and the masked hidden states
  \<open>new\<close> of shape \<open>(k,) + sh\<close>: the shapes have to agree in all dimensions but the first,
  or \<open>RuntimeError\<close> is raised. A tensor of shape \<open>(0,)\<close> is skipped, whatever the other
  shape.
\<close>

definition cat :: "int \<Rightarrow> 'v list \<Rightarrow> int list \<Rightarrow> 'v list \<Rightarrow> error + 'v list" where
  "cat w a sh new =
     (if sh = [w] \<or> (sh = [] \<and> new = []) then Inr (a @ new) else Inl RuntimeError)"

text \<open>
  \<open>x < y\<close> for a 0-dimensional int64 tensor \<open>x\<close> and a Python integer \<open>y\<close>: \<open>y\<close> is converted
  to int64 for the comparison. From \<open>2^63\<close> to \<open>2^64 - 1\<close> it wraps to \<open>y - 2^64\<close>; outside
  of \<open>-2^63, ..., 2^64 - 1\<close> the conversion raises \<open>OverflowError\<close>.
\<close>

definition tensor_lt :: "int \<Rightarrow> int \<Rightarrow> error + bool" where
  "tensor_lt x y =
     (if - (2 ^ 63) \<le> y \<and> y < 2 ^ 63 then Inr (x < y)
      else if 2 ^ 63 \<le> y \<and> y < 2 ^ 64 then Inr (x < y - 2 ^ 64)
      else Inl OverflowError)"

subsection \<open>Construction\<close>

text \<open>
  The width of \<open>t.empty(0, d)\<close>. The call raises \<open>RuntimeError\<close> for a negative \<open>d\<close>, and
  \<open>TypeError\<close> when \<open>d\<close> cannot be unpacked into an int64.
\<close>

definition t_empty :: "int \<Rightarrow> error + int" where
  "t_empty d =
     (if d < - (2 ^ 63) \<or> 2 ^ 63 \<le> d then Inl TypeError
      else if d < 0 then Inl RuntimeError
      else Inr d)"

text \<open>
  \<open>__init__\<close>. \<open>in_feats\<close> and \<open>out_feats\<close> are \<open>None\<close> when not supplied; an attribute of the
  extraction point is \<open>None\<close> when reading it raises.
\<close>

definition ActivationBuffer_init ::
  "'t list \<Rightarrow> ('t list \<Rightarrow> int \<Rightarrow> error + 'v traced) \<Rightarrow> extraction_point \<Rightarrow>
   int option \<Rightarrow> int option \<Rightarrow> string \<Rightarrow> int \<Rightarrow> int \<Rightarrow> int \<Rightarrow> int \<Rightarrow>
   error + ('v, 't) ActivationBuffer" where
  "ActivationBuffer_init dat mdl sub in_feats out_feats io' n c ib ob =
     (let self = \<lparr>activations = None, activations_in = None, activations_out = None,
                  width = 0, width_in = 0, width_out = 0,
                  read = [], data = dat, model = mdl, submodule = sub, io = io',
                  n_ctxs = n, ctx_len = c, in_batch_size = ib, out_batch_size = ob\<rparr>
      in if io' = ''in'' then
           (case (case in_feats of None \<Rightarrow> in_features sub | Some d \<Rightarrow> Some d) of
              None \<Rightarrow> Inl ValueError
            | Some d \<Rightarrow>
               (case t_empty d of
                  Inl e \<Rightarrow> Inl e
                | Inr w \<Rightarrow> Inr (self\<lparr>activations := Some [], width := w\<rparr>)))
         else if io' = ''out'' then
           (case (case out_feats of None \<Rightarrow> out_features sub | Some d \<Rightarrow> Some d) of
              None \<Rightarrow> Inl ValueError
            | Some d \<Rightarrow>
               (case t_empty d of
                  Inl e \<Rightarrow> Inl e
                | Inr w \<Rightarrow> Inr (self\<lparr>activations := Some [], width := w\<rparr>)))
         else if io' = ''in_to_out'' then
           (case (case in_feats of None \<Rightarrow> in_features sub | Some d \<Rightarrow> Some d) of
              None \<Rightarrow> Inl ValueError
            | Some d \<Rightarrow>
               (case (case out_feats of None \<Rightarrow> out_features sub | Some d \<Rightarrow> Some d) of
                  None \<Rightarrow> Inl ValueError
                | Some d' \<Rightarrow>
                   (case t_empty d of
                      Inl e \<Rightarrow> Inl e
                    | Inr w \<Rightarrow>
                       (case t_empty d' of
                          Inl e \<Rightarrow> Inl e
                        | Inr w' \<Rightarrow>
                           Inr (self\<lparr>activations_in := Some [], activations_out := Some [],
                                      width_in := w, width_out := w'\<rparr>)))))
         else Inr self)"

subsection \<open>Ingestion\<close>

text \<open>
  \<open>text_batch\<close>: \<open>batch_size\<close> calls of \<open>next(self.data)\<close>. When the generator ends first,
  the items already pulled are gone and \<open>StopIteration\<close> is raised.
\<close>

definition text_batch ::
  "int option \<Rightarrow> ('v, 't) ActivationBuffer \<Rightarrow> (error + 't list) \<times> ('v, 't) ActivationBuffer" where
  "text_batch batch_size s =
     (let k = nat (case batch_size of None \<Rightarrow> in_batch_size s | Some b \<Rightarrow> b)
      in if k \<le> length (data s) then (Inr (take k (data s)), s\<lparr>data := drop k (data s)\<rparr>)
         else (Inl StopIteration, s\<lparr>data := []\<rparr>))"

text \<open>The body of the \<open>while\<close> loop of \<open>_refresh_std\<close>.\<close>

definition refresh_std_body ::
  "('v, 't) ActivationBuffer \<Rightarrow> (error + unit) \<times> ('v, 't) ActivationBuffer" where
  "refresh_std_body s =
     (case text_batch None s of
        (Inl e, s1) \<Rightarrow> (Inl e, s1)
      | (Inr texts, s1) \<Rightarrow>
         (case model s1 texts (ctx_len s1) of
            Inl e \<Rightarrow> (Inl e, s1)
          | Inr tr \<Rightarrow>
             (case unwrap (if io s1 = ''in'' then submodule_input tr else submodule_output tr) of
                Inl e \<Rightarrow> (Inl e, s1)
              | Inr (sh, h) \<Rightarrow>
                 (case mask_index2 h (attention_mask tr) of
                    Inl e \<Rightarrow> (Inl e, s1)
                  | Inr hidden_states \<Rightarrow>
                     (case activations s1 of
                        None \<Rightarrow> (Inl AttributeError, s1)
                      | Some a \<Rightarrow>
                         (case cat (width s1) a sh hidden_states of
                            Inl e \<Rightarrow> (Inl e, s1)
                          | Inr a' \<Rightarrow>
                             (Inr (), s1\<lparr>activations := Some a',
                                         read := replicate (length a') False\<rparr>)))))))"

partial_function (option) refresh_std_loop ::
  "('v, 't) ActivationBuffer \<Rightarrow> ((error + unit) \<times> ('v, 't) ActivationBuffer) option" where
  [code]: "refresh_std_loop s =
     (case activations s of
        None \<Rightarrow> Some (Inl AttributeError, s)
      | Some a \<Rightarrow>
         if int (length a) < n_ctxs s * ctx_len s then
           (case refresh_std_body s of
              (Inl e, s1) \<Rightarrow> Some (Inl e, s1)
            | (Inr u, s1) \<Rightarrow> refresh_std_loop s1)
         else Some (Inr (), s))"

definition refresh_std ::
  "('v, 't) ActivationBuffer \<Rightarrow> ((error + unit) \<times> ('v, 't) ActivationBuffer) option" where
  "refresh_std s =
     (case activations s of
        None \<Rightarrow> Some (Inl AttributeError, s)
      | Some a \<Rightarrow>
         (case mask_index a (map Not (read s)) of
            Inl e \<Rightarrow> Some (Inl e, s)
          | Inr a' \<Rightarrow> refresh_std_loop (s\<lparr>activations := Some a'\<rparr>)))"

text \<open>The body of the \<open>while\<close> loop of \<open>_refresh_in_to_out\<close>.\<close>

definition refresh_in_to_out_body ::
  "('v, 't) ActivationBuffer \<Rightarrow> (error + unit) \<times> ('v, 't) ActivationBuffer" where
  "refresh_in_to_out_body s =
     (case text_batch None s of
        (Inl e, s1) \<Rightarrow> (Inl e, s1)
      | (Inr texts, s1) \<Rightarrow>
         (case model s1 texts (ctx_len s1) of
            Inl e \<Rightarrow> (Inl e, s1)
          | Inr tr \<Rightarrow>
             (case unwrap (submodule_input tr) of
                Inl e \<Rightarrow> (Inl e, s1)
              | Inr (sh_in, h_in) \<Rightarrow>
                 (case unwrap (submodule_output tr) of
                    Inl e \<Rightarrow> (Inl e, s1)
                  | Inr (sh_out, h_out) \<Rightarrow>
                     (case mask_index2 h_in (attention_mask tr) of
                        Inl e \<Rightarrow> (Inl e, s1)
                      | Inr hidden_states_in \<Rightarrow>
                         (case mask_index2 h_out (attention_mask tr) of
                            Inl e \<Rightarrow> (Inl e, s1)
                          | Inr hidden_states_out \<Rightarrow>
                             (case activations_in s1 of
                                None \<Rightarrow> (Inl AttributeError, s1)
                              | Some a_in \<Rightarrow>
                                 (case cat (width_in s1) a_in sh_in hidden_states_in of
                                    Inl e \<Rightarrow> (Inl e, s1)
                                  | Inr a_in' \<Rightarrow>
                                     (let s2 = s1\<lparr>activations_in := Some a_in'\<rparr>
                                      in case activations_out s2 of
                                           None \<Rightarrow> (Inl AttributeError, s2)
                                         | Some a_out \<Rightarrow>
                                            (case cat (width_out s2) a_out sh_out
                                                    hidden_states_out of
                                               Inl e \<Rightarrow> (Inl e, s2)
                                             | Inr a_out' \<Rightarrow>
                                                (Inr (),
                                                 s2\<lparr>activations_out := Some a_out',
                                                    read := replicate (length a_in') False\<rparr>)))))))))))"

partial_function (option) refresh_in_to_out_loop ::
  "('v, 't) ActivationBuffer \<Rightarrow> ((error + unit) \<times> ('v, 't) ActivationBuffer) option" where
  [code]: "refresh_in_to_out_loop s =
     (case activations_in s of
        None \<Rightarrow> Some (Inl AttributeError, s)
      | Some a_in \<Rightarrow>
         if int (length a_in) < n_ctxs s * ctx_len s then
           (case refresh_in_to_out_body s of
              (Inl e, s1) \<Rightarrow> Some (Inl e, s1)
            | (Inr u, s1) \<Rightarrow> refresh_in_to_out_loop s1)
         else Some (Inr (), s))"

definition refresh_in_to_out ::
  "('v, 't) ActivationBuffer \<Rightarrow> ((error + unit) \<times> ('v, 't) ActivationBuffer) option" where
  "refresh_in_to_out s =
     (case activations_in s of
        None \<Rightarrow> Some (Inl AttributeError, s)
      | Some a_in \<Rightarrow>
         (case mask_index a_in (map Not (read s)) of
            Inl e \<Rightarrow> Some (Inl e, s)
          | Inr a_in' \<Rightarrow>
             (case activations_out s of
                None \<Rightarrow> Some (Inl AttributeError, s\<lparr>activations_in := Some a_in'\<rparr>)
              | Some a_out \<Rightarrow>
                 (case mask_index a_out (map Not (read s)) of
                    Inl e \<Rightarrow> Some (Inl e, s\<lparr>activations_in := Some a_in'\<rparr>)
                  | Inr a_out' \<Rightarrow>
                     refresh_in_to_out_loop
                       (s\<lparr>activations_in := Some a_in', activations_out := Some a_out'\<rparr>)))))"

definition refresh ::
  "('v, 't) ActivationBuffer \<Rightarrow> ((error + unit) \<times> ('v, 't) ActivationBuffer) option" where
  "refresh s =
     (if io s = ''in'' \<or> io s = ''out'' then refresh_std s else refresh_in_to_out s)"

subsection \<open>Sampling\<close>

text \<open>\<open>(~self.read).sum()\<close>.\<close>

definition unread_count :: "bool list \<Rightarrow> nat" where
  "unread_count rd = length (filter Not rd)"

text \<open>Lines 79 and 80 of \<open>__next__\<close>: the indices \<open>idxs\<close> of the batch.\<close>

definition select_idxs :: "(nat \<Rightarrow> nat list) \<Rightarrow> int \<Rightarrow> bool list \<Rightarrow> error + nat list" where
  "select_idxs rp obs rd =
     (let unreads = squeeze (nonzero (map Not rd))
      in case len unreads of
           Inl e \<Rightarrow> Inl e
         | Inr k \<Rightarrow> getitem unreads (slice_to obs (rp k)))"

text \<open>Lines 79 to 85: mark the batch read and return its rows.\<close>

definition serve ::
  "(nat \<Rightarrow> nat list) \<Rightarrow> ('v, 't) ActivationBuffer \<Rightarrow>
   (error + 'v batch) \<times> ('v, 't) ActivationBuffer" where
  "serve rp s =
     (case select_idxs rp (out_batch_size s) (read s) of
        Inl e \<Rightarrow> (Inl e, s)
      | Inr idxs \<Rightarrow>
         (case index_put_True (read s) idxs of
            Inl e \<Rightarrow> (Inl e, s)
          | Inr rd \<Rightarrow>
             (let s1 = s\<lparr>read := rd\<rparr>
              in if io s1 = ''in'' \<or> io s1 = ''out'' then
                   (case activations s1 of
                      None \<Rightarrow> (Inl AttributeError, s1)
                    | Some a \<Rightarrow>
                       (case index_rows a idxs of
                          Inl e \<Rightarrow> (Inl e, s1)
                        | Inr b \<Rightarrow> (Inr (Single b), s1)))
                 else
                   (case activations_in s1 of
                      None \<Rightarrow> (Inl AttributeError, s1)
                    | Some a_in \<Rightarrow>
                       (case index_rows a_in idxs of
                          Inl e \<Rightarrow> (Inl e, s1)
                        | Inr b_in \<Rightarrow>
                           (case activations_out s1 of
                              None \<Rightarrow> (Inl AttributeError, s1)
                            | Some a_out \<Rightarrow>
                               (case index_rows a_out idxs of
                                  Inl e \<Rightarrow> (Inl e, s1)
                                | Inr b_out \<Rightarrow> (Inr (Pair b_in b_out), s1))))))))"

text \<open>Line 75: the comparison of the number of unread rows, a 0-dimensional int64 tensor,
  with the Python integer \<open>n_ctxs * ctx_len // 2\<close>.\<close>

definition below_threshold :: "('v, 't) ActivationBuffer \<Rightarrow> error + bool" where
  "below_threshold s = tensor_lt (int (unread_count (read s))) (n_ctxs s * ctx_len s div 2)"

text \<open>\<open>__next__\<close>: refresh when the comparison of line 75 holds, then serve a batch.\<close>

definition next_batch ::
  "(nat \<Rightarrow> nat list) \<Rightarrow> ('v, 't) ActivationBuffer \<Rightarrow>
   ((error + 'v batch) \<times> ('v, 't) ActivationBuffer) option" where
  "next_batch rp s =
     (case below_threshold s of
        Inl e \<Rightarrow> Some (Inl e, s)
      | Inr low \<Rightarrow>
         if low then
           (case refresh s of
              None \<Rightarrow> None
            | Some (Inl e, s1) \<Rightarrow> Some (Inl e, s1)
            | Some (Inr u, s1) \<Rightarrow> Some (serve rp s1))
         else Some (serve rp s))"

subsection \<open>Notions used in the statements\<close>

text \<open>What \<open>t.randperm\<close> promises: \<open>rp n\<close> is a permutation of \<open>0, ..., n - 1\<close>.\<close>

definition is_randperm :: "(nat \<Rightarrow> nat list) \<Rightarrow> bool" where
  "is_randperm rp = (\<forall>n. distinct (rp n) \<and> set (rp n) = {0..<n})"

text \<open>The indices whose flag is false: the unconsumed set.\<close>

definition unread_set :: "bool list \<Rightarrow> nat set" where
  "unread_set rd = {i. i < length rd \<and> \<not> rd ! i}"

text \<open>The number of rows of a returned batch (both halves of a pair have it).\<close>

fun batch_len :: "'v batch \<Rightarrow> nat" where
  "batch_len (Single b) = length b"
| "batch_len (Pair b_in b_out) = length b_in"

text \<open>The flags are as long as the buffer they belong to (both buffers, with two taps).\<close>

definition synced :: "('v, 't) ActivationBuffer \<Rightarrow> bool" where
  "synced s =
     (if io s = ''in'' \<or> io s = ''out'' then
        (case activations s of None \<Rightarrow> False | Some a \<Rightarrow> length (read s) = length a)
      else
        (case activations_in s of
           None \<Rightarrow> False
         | Some a_in \<Rightarrow>
            (case activations_out s of
               None \<Rightarrow> False
             | Some a_out \<Rightarrow> length (read s) = length a_in \<and> length a_out = length a_in)))"

text \<open>Two states of one buffer object: the configuration is the same.\<close>

definition same_config :: "('v, 't) ActivationBuffer \<Rightarrow> ('v, 't) ActivationBuffer \<Rightarrow> bool" where
  "same_config s s' =
     (io s' = io s \<and> n_ctxs s' = n_ctxs s \<and> ctx_len s' = ctx_len s \<and>
      in_batch_size s' = in_batch_size s \<and> out_batch_size s' = out_batch_size s \<and>
      model s' = model s \<and> submodule s' = submodule s)"

subsection \<open>Example inputs\<close>

text \<open>
  A stand-in for the language model, used to run the buffer on concrete inputs. A text is
  the list of its token numbers. The tokenizer truncates each text to \<open>max_length\<close> and
  pads the batch to its longest text; the input tap holds the token numbers inside two
  tuples, the output tap the token numbers plus 100; padding positions hold 0 and have
  attention mask 0. A number stands for a row of width 8.
\<close>

definition pad_model :: "nat list list \<Rightarrow> int \<Rightarrow> error + nat traced" where
  "pad_model texts max_length =
     (let toks = map (take (nat max_length)) texts;
          L = fold max (map length toks) 0
      in Inr \<lparr>submodule_input =
                Tuple [Tuple [Tensor [8] (map (\<lambda>t. t @ replicate (L - length t) 0) toks)]],
              submodule_output =
                Tensor [8] (map (\<lambda>t. map (\<lambda>x. x + 100) t @ replicate (L - length t) 0) toks),
              attention_mask =
                map (\<lambda>t. replicate (length t) 1 @ replicate (L - length t) 0) toks\<rparr>)"

text \<open>The scenario of the specification: \<open>n_ctxs = 1\<close>, \<open>ctx_len = 4\<close>, \<open>in_batch_size = 2\<close>,
  \<open>out_batch_size = 2\<close>, \<open>io = 'out'\<close>, \<open>out_feats = 8\<close>, four texts of four tokens.\<close>

definition scenario :: "error + (nat, nat list) ActivationBuffer" where
  "scenario =
     ActivationBuffer_init [[1, 2, 3, 4], [5, 6, 7, 8], [9, 10, 11, 12], [13, 14, 15, 16]]
       pad_model \<lparr>in_features = None, out_features = None\<rparr> None (Some 8) ''out'' 1 4 2 2"

text \<open>A small buffer: \<open>n_ctxs = 1\<close>, \<open>ctx_len = 2\<close>, batches of one, one text of two tokens.\<close>

definition tiny :: "error + (nat, nat list) ActivationBuffer" where
  "tiny =
     ActivationBuffer_init [[1, 2]]
       pad_model \<lparr>in_features = None, out_features = Some 8\<rparr> None None ''out'' 1 2 1 1"

text \<open>The small buffer after one call with the identity permutation: row 0 was served.\<close>

definition tiny_left :: "(nat, nat list) ActivationBuffer" where
  "tiny_left =
     \<lparr>activations = Some [101, 102], activations_in = None, activations_out = None,
      width = 8, width_in = 0, width_out = 0,
      read = [True, False], data = [], model = pad_model,
      submodule = \<lparr>in_features = None, out_features = Some 8\<rparr>, io = ''out'',
      n_ctxs = 1, ctx_len = 2, in_batch_size = 1, out_batch_size = 1\<rparr>"

text \<open>The scenario's buffer with given rows, flags and remaining texts.\<close>

definition scenario_with ::
  "nat list \<Rightarrow> bool list \<Rightarrow> nat list list \<Rightarrow> (nat, nat list) ActivationBuffer" where
  "scenario_with a rd d =
     \<lparr>activations = Some a, activations_in = None, activations_out = None,
      width = 8, width_in = 0, width_out = 0,
      read = rd, data = d, model = pad_model,
      submodule = \<lparr>in_features = None, out_features = None\<rparr>, io = ''out'',
      n_ctxs = 1, ctx_len = 4, in_batch_size = 2, out_batch_size = 2\<rparr>"

text \<open>The scenario with a text source of two texts only.\<close>

definition short_source :: "error + (nat, nat list) ActivationBuffer" where
  "short_source =
     ActivationBuffer_init [[1, 2, 3, 4], [5, 6, 7, 8]]
       pad_model \<lparr>in_features = None, out_features = None\<rparr> None (Some 8) ''out'' 1 4 2 2"

text \<open>A buffer with two taps: \<open>io = 'in_to_out'\<close>, two texts of two and three tokens, so
  that the batch is padded.\<close>

definition dual :: "error + (nat, nat list) ActivationBuffer" where
  "dual =
     ActivationBuffer_init [[1, 2], [3, 4, 5]]
       pad_model \<lparr>in_features = Some 8, out_features = Some 8\<rparr> None None ''in_to_out'' 1 4 2 2"

definition dual_with ::
  "nat list \<Rightarrow> nat list \<Rightarrow> bool list \<Rightarrow> nat list list \<Rightarrow> (nat, nat list) ActivationBuffer" where
  "dual_with a_in a_out rd d =
     \<lparr>activations = None, activations_in = Some a_in, activations_out = Some a_out,
      width = 0, width_in = 8, width_out = 8,
      read = rd, data = d, model = pad_model,
      submodule = \<lparr>in_features = Some 8, out_features = Some 8\<rparr>, io = ''in_to_out'',
      n_ctxs = 1, ctx_len = 4, in_batch_size = 2, out_batch_size = 2\<rparr>"

text \<open>The scenario's new buffer with \<open>n_ctxs = 2^64\<close> and \<open>ctx_len = 1\<close>: the threshold is
  \<open>2^63\<close>.\<close>

definition wide :: "(nat, nat list) ActivationBuffer" where
  "wide = (scenario_with [] [] [[1, 2, 3, 4], [5, 6, 7, 8]])\<lparr>n_ctxs := 2 ^ 64, ctx_len := 1\<rparr>"

text \<open>The same buffer constructed with \<open>out_feats = 4\<close>, while the rows of the model's
  output tap have width 8.\<close>

definition dual_narrow :: "error + (nat, nat list) ActivationBuffer" where
  "dual_narrow =
     ActivationBuffer_init [[1, 2], [3, 4, 5]]
       pad_model \<lparr>in_features = Some 8, out_features = Some 8\<rparr> None (Some 4) ''in_to_out''
       1 4 2 2"

definition dual_narrow_with ::
  "nat list \<Rightarrow> nat list \<Rightarrow> bool list \<Rightarrow> nat list list \<Rightarrow> (nat, nat list) ActivationBuffer" where
  "dual_narrow_with a_in a_out rd d = (dual_with a_in a_out rd d)\<lparr>width_out := 4\<rparr>"

subsection \<open>Alignment of the two buffers\<close>

text \<open>
  \<open>R x y\<close> stands for: the input-side row \<open>x\<close> and the output-side row \<open>y\<close> belong to the
  same source token. The model relates its two taps when, at every position of a batch
  whose attention mask is not 0, the row of the input tap and the row of the output tap
  are related.
\<close>

definition taps_related ::
  "('v \<Rightarrow> 'v \<Rightarrow> bool) \<Rightarrow> ('t list \<Rightarrow> int \<Rightarrow> error + 'v traced) \<Rightarrow> bool" where
  "taps_related R mdl =
     (\<forall>texts m tr sh_in h_in sh_out h_out b l.
        mdl texts m = Inr tr \<and> unwrap (submodule_input tr) = Inr (sh_in, h_in) \<and>
        unwrap (submodule_output tr) = Inr (sh_out, h_out) \<and>
        b < length (attention_mask tr) \<and> l < length (attention_mask tr ! b) \<and>
        attention_mask tr ! b ! l \<noteq> 0
        \<longrightarrow> R (h_in ! b ! l) (h_out ! b ! l))"

text \<open>Both buffers exist, have the same length, and hold related rows at each index.\<close>

definition aligned :: "('v \<Rightarrow> 'v \<Rightarrow> bool) \<Rightarrow> ('v, 't) ActivationBuffer \<Rightarrow> bool" where
  "aligned R s =
     (case activations_in s of
        None \<Rightarrow> False
      | Some a_in \<Rightarrow>
         (case activations_out s of
            None \<Rightarrow> False
          | Some a_out \<Rightarrow> list_all2 R a_in a_out))"

text \<open>The states a buffer object goes through: any calls of \<open>__next__\<close> and \<open>refresh\<close>
  that return or raise, as long as none of them raises \<open>RuntimeError\<close> (the exception of
  an append that fails).\<close>

inductive reachable ::
  "('v, 't) ActivationBuffer \<Rightarrow> ('v, 't) ActivationBuffer \<Rightarrow> bool"
  for s0 :: "('v, 't) ActivationBuffer" where
  reach_init: "reachable s0 s0"
| reach_next: "reachable s0 s \<Longrightarrow> next_batch rp s = Some (r, s') \<Longrightarrow> r \<noteq> Inl RuntimeError \<Longrightarrow>
     reachable s0 s'"
| reach_refresh: "reachable s0 s \<Longrightarrow> refresh s = Some (r, s') \<Longrightarrow> r \<noteq> Inl RuntimeError \<Longrightarrow>
     reachable s0 s'"

subsection \<open>Storage as the specification words it\<close>

text \<open>
  For the comparison with the source, following section 4.1 of the specification:
  compaction produces the storage of the unconsumed entries only (rows and flags), in
  order; an append extends the rows with the new ones and the flags with one false flag
  for each.
\<close>

definition storage_compact :: "'v list \<Rightarrow> bool list \<Rightarrow> 'v list \<times> bool list" where
  "storage_compact vs flags =
     (map fst (filter (\<lambda>(v, f). \<not> f) (zip vs flags)),
      map snd (filter (\<lambda>(v, f). \<not> f) (zip vs flags)))"

definition storage_append :: "'v list \<Rightarrow> bool list \<Rightarrow> 'v list \<Rightarrow> 'v list \<times> bool list" where
  "storage_append vs flags new = (vs @ new, flags @ replicate (length new) False)"

text \<open>The loop body of \<open>_refresh_std\<close> with line 131 replaced: the flags are extended by
  \<open>storage_append\<close> instead of being reset.\<close>

definition extend_std_body ::
  "('v, 't) ActivationBuffer \<Rightarrow> (error + unit) \<times> ('v, 't) ActivationBuffer" where
  "extend_std_body s =
     (case text_batch None s of
        (Inl e, s1) \<Rightarrow> (Inl e, s1)
      | (Inr texts, s1) \<Rightarrow>
         (case model s1 texts (ctx_len s1) of
            Inl e \<Rightarrow> (Inl e, s1)
          | Inr tr \<Rightarrow>
             (case unwrap (if io s1 = ''in'' then submodule_input tr else submodule_output tr) of
                Inl e \<Rightarrow> (Inl e, s1)
              | Inr (sh, h) \<Rightarrow>
                 (case mask_index2 h (attention_mask tr) of
                    Inl e \<Rightarrow> (Inl e, s1)
                  | Inr hidden_states \<Rightarrow>
                     (case activations s1 of
                        None \<Rightarrow> (Inl AttributeError, s1)
                      | Some a \<Rightarrow>
                         (case cat (width s1) a sh hidden_states of
                            Inl e \<Rightarrow> (Inl e, s1)
                          | Inr a' \<Rightarrow>
                             (Inr (), s1\<lparr>activations := Some a',
                                         read := snd (storage_append a (read s1) hidden_states)\<rparr>)))))))"

text \<open>The loop body of \<open>_refresh_in_to_out\<close> with line 155 replaced in the same way.\<close>

definition extend_in_to_out_body ::
  "('v, 't) ActivationBuffer \<Rightarrow> (error + unit) \<times> ('v, 't) ActivationBuffer" where
  "extend_in_to_out_body s =
     (case text_batch None s of
        (Inl e, s1) \<Rightarrow> (Inl e, s1)
      | (Inr texts, s1) \<Rightarrow>
         (case model s1 texts (ctx_len s1) of
            Inl e \<Rightarrow> (Inl e, s1)
          | Inr tr \<Rightarrow>
             (case unwrap (submodule_input tr) of
                Inl e \<Rightarrow> (Inl e, s1)
              | Inr (sh_in, h_in) \<Rightarrow>
                 (case unwrap (submodule_output tr) of
                    Inl e \<Rightarrow> (Inl e, s1)
                  | Inr (sh_out, h_out) \<Rightarrow>
                     (case mask_index2 h_in (attention_mask tr) of
                        Inl e \<Rightarrow> (Inl e, s1)
                      | Inr hidden_states_in \<Rightarrow>
                         (case mask_index2 h_out (attention_mask tr) of
                            Inl e \<Rightarrow> (Inl e, s1)
                          | Inr hidden_states_out \<Rightarrow>
                             (case activations_in s1 of
                                None \<Rightarrow> (Inl AttributeError, s1)
                              | Some a_in \<Rightarrow>
                                 (case cat (width_in s1) a_in sh_in hidden_states_in of
                                    Inl e \<Rightarrow> (Inl e, s1)
                                  | Inr a_in' \<Rightarrow>
                                     (let s2 = s1\<lparr>activations_in := Some a_in'\<rparr>
                                      in case activations_out s2 of
                                           None \<Rightarrow> (Inl AttributeError, s2)
                                         | Some a_out \<Rightarrow>
                                            (case cat (width_out s2) a_out sh_out
                                                    hidden_states_out of
                                               Inl e \<Rightarrow> (Inl e, s2)
                                             | Inr a_out' \<Rightarrow>
                                                (Inr (),
                                                 s2\<lparr>activations_out := Some a_out',
                                                    read :=
                                                      snd (storage_append a_in (read s1)
                                                             hidden_states_in)\<rparr>)))))))))))"

text \<open>\<open>k\<close> runs of a loop body, one append each, stopping at the first exception.\<close>

fun appends ::
  "nat \<Rightarrow> ('s \<Rightarrow> (error + unit) \<times> 's) \<Rightarrow> 's \<Rightarrow> (error + unit) \<times> 's" where
  "appends 0 body s = (Inr (), s)"
| "appends (Suc k) body s =
     (case body s of
        (Inl e, s1) \<Rightarrow> (Inl e, s1)
      | (Inr u, s1) \<Rightarrow> appends k body s1)"

text \<open>The rows whose flag is false, in order: what \<open>x[~self.read]\<close> keeps.\<close>

definition unread_rows :: "'v list \<Rightarrow> bool list \<Rightarrow> 'v list" where
  "unread_rows a rd = map fst (filter snd (zip a (map Not rd)))"

subsection \<open>Sequences of calls\<close>

text \<open>The buffer after a sequence of \<open>__next__\<close> calls that all returned a batch, one
  permutation per call; \<open>None\<close> when a call raised or did not return.\<close>

fun next_batches ::
  "(nat \<Rightarrow> nat list) list \<Rightarrow> ('v, 't) ActivationBuffer \<Rightarrow> ('v, 't) ActivationBuffer option" where
  "next_batches [] s = Some s"
| "next_batches (rp # rps) s =
     (case next_batch rp s of
        None \<Rightarrow> None
      | Some (Inl e, s1) \<Rightarrow> None
      | Some (Inr b, s1) \<Rightarrow> next_batches rps s1)"

section \<open>Properties\<close>

subsection \<open>Index tensors and flags\<close>

lemma filter_via_index: "filter P xs = map (\<lambda>i. xs ! i) (filter (\<lambda>i. P (xs ! i)) [0..<length xs])"
proof -
  have "filter P xs = filter P (map (\<lambda>i. xs ! i) [0..<length xs])"
    by (simp add: map_nth)
  also have "\<dots> = map (\<lambda>i. xs ! i) (filter (\<lambda>i. P (xs ! i)) [0..<length xs])"
    by (simp add: filter_map comp_def)
  finally show ?thesis .
qed

lemma nonzero_Not: "nonzero (map Not rd) = filter (\<lambda>i. \<not> rd ! i) [0..<length rd]"
  unfolding nonzero_def by (rule filter_cong) auto

lemma length_nonzero_Not: "length (nonzero (map Not rd)) = unread_count rd"
  unfolding unread_count_def nonzero_Not
  by (subst (2) filter_via_index) simp

lemma set_nonzero_Not: "set (nonzero (map Not rd)) = unread_set rd"
  by (auto simp: nonzero_Not unread_set_def)

lemma distinct_nonzero: "distinct (nonzero bs)"
  by (simp add: nonzero_def)

lemma unread_count_card: "unread_count rd = card (unread_set rd)"
  using distinct_card [OF distinct_nonzero, of "map Not rd"]
  by (simp add: length_nonzero_Not set_nonzero_Not)

lemma unread_count_replicate_False: "unread_count (replicate n False) = n"
  by (simp add: unread_count_def)

lemma len_squeeze: "len (squeeze xs) = (if length xs = 1 then Inl TypeError else Inr (length xs))"
  by (cases xs; simp add: squeeze_def split: list.splits)

lemma squeeze_Dim1: "length xs \<noteq> 1 \<Longrightarrow> squeeze xs = Dim1 xs"
  by (cases xs; simp add: squeeze_def split: list.splits)

lemma squeeze_one: "length xs = 1 \<Longrightarrow> \<exists>i. xs = [i] \<and> squeeze xs = Dim0 i"
  by (cases xs; simp add: squeeze_def)

lemma set_slice_to: "set (slice_to k xs) \<subseteq> set xs"
  by (auto simp: slice_to_def dest: in_set_takeD)

lemma distinct_slice_to: "distinct xs \<Longrightarrow> distinct (slice_to k xs)"
  by (simp add: slice_to_def)

lemma length_slice_to: "0 \<le> k \<Longrightarrow> length (slice_to k xs) = min (nat k) (length xs)"
  by (simp add: slice_to_def min.commute)

lemma length_randperm: "is_randperm rp \<Longrightarrow> length (rp n) = n"
  using distinct_card [of "rp n"] by (simp add: is_randperm_def)

subsection \<open>Choosing the indices of a batch\<close>

lemma select_idxs_one: "unread_count rd = 1 \<Longrightarrow> select_idxs rp obs rd = Inl TypeError"
  by (simp add: select_idxs_def Let_def len_squeeze length_nonzero_Not)

lemma select_idxs_Inr:
  assumes "select_idxs rp obs rd = Inr idxs"
  shows "unread_count rd \<noteq> 1"
    and "idxs = map (\<lambda>j. nonzero (map Not rd) ! j) (slice_to obs (rp (unread_count rd)))"
    and "list_all (\<lambda>j. j < unread_count rd) (slice_to obs (rp (unread_count rd)))"
    and "set idxs \<subseteq> unread_set rd"
proof -
  show ne: "unread_count rd \<noteq> 1"
    using assms by (auto simp: select_idxs_one)
  then have sq: "squeeze (nonzero (map Not rd)) = Dim1 (nonzero (map Not rd))"
    by (simp add: squeeze_Dim1 length_nonzero_Not)
  from assms have ir: "index_rows (nonzero (map Not rd)) (slice_to obs (rp (unread_count rd))) = Inr idxs"
    by (simp add: select_idxs_def Let_def sq length_nonzero_Not)
  then show all: "list_all (\<lambda>j. j < unread_count rd) (slice_to obs (rp (unread_count rd)))"
    by (simp add: index_rows_def length_nonzero_Not split: if_splits)
  from ir show eq: "idxs = map (\<lambda>j. nonzero (map Not rd) ! j) (slice_to obs (rp (unread_count rd)))"
    by (auto simp: index_rows_def split: if_splits)
  show "set idxs \<subseteq> unread_set rd"
  proof
    fix i assume "i \<in> set idxs"
    then obtain j where "j \<in> set (slice_to obs (rp (unread_count rd)))" "i = nonzero (map Not rd) ! j"
      using eq by auto
    moreover from this all have "j < length (nonzero (map Not rd))"
      by (simp add: list_all_iff length_nonzero_Not)
    ultimately have "i \<in> set (nonzero (map Not rd))" by simp
    then show "i \<in> unread_set rd" by (simp add: set_nonzero_Not)
  qed
qed

lemma select_idxs_randperm:
  assumes "is_randperm rp" and "unread_count rd \<noteq> 1"
  shows "select_idxs rp obs rd
           = Inr (map (\<lambda>j. nonzero (map Not rd) ! j) (slice_to obs (rp (unread_count rd))))"
proof -
  have sq: "squeeze (nonzero (map Not rd)) = Dim1 (nonzero (map Not rd))"
    using assms(2) by (simp add: squeeze_Dim1 length_nonzero_Not)
  have "set (slice_to obs (rp (unread_count rd))) \<subseteq> {0..<unread_count rd}"
    using set_slice_to [of obs "rp (unread_count rd)"] assms(1) by (simp add: is_randperm_def)
  then have "list_all (\<lambda>j. j < length (nonzero (map Not rd))) (slice_to obs (rp (unread_count rd)))"
    by (auto simp: list_all_iff length_nonzero_Not)
  then show ?thesis
    using assms(2) by (simp add: select_idxs_def Let_def sq len_squeeze length_nonzero_Not index_rows_def)
qed

lemma select_idxs_distinct:
  assumes "is_randperm rp" and "select_idxs rp obs rd = Inr idxs"
  shows "distinct idxs"
proof -
  let ?js = "slice_to obs (rp (unread_count rd))"
  have eq: "idxs = map (\<lambda>j. nonzero (map Not rd) ! j) ?js"
    and all: "list_all (\<lambda>j. j < unread_count rd) ?js"
    using select_idxs_Inr [OF assms(2)] by simp_all
  have d: "distinct ?js"
    using assms(1) by (simp add: distinct_slice_to is_randperm_def)
  have "inj_on (\<lambda>j. nonzero (map Not rd) ! j) (set ?js)"
  proof (rule inj_onI)
    fix x y assume "x \<in> set ?js" "y \<in> set ?js" "nonzero (map Not rd) ! x = nonzero (map Not rd) ! y"
    moreover from this all have "x < length (nonzero (map Not rd))" "y < length (nonzero (map Not rd))"
      by (simp_all add: list_all_iff length_nonzero_Not)
    ultimately show "x = y"
      using distinct_nonzero [of "map Not rd"] by (simp add: nth_eq_iff_index_eq)
  qed
  with d show ?thesis by (simp add: eq distinct_map)
qed

lemma select_idxs_length:
  assumes "is_randperm rp" and "select_idxs rp obs rd = Inr idxs" and "0 \<le> obs"
  shows "length idxs = min (nat obs) (unread_count rd)"
  using select_idxs_Inr(2) [OF assms(2)] assms(1,3)
  by (simp add: length_slice_to length_randperm)

subsection \<open>Marking indices read\<close>

lemma fold_put_True_length: "length (fold (\<lambda>j r. r[j := True]) js bs) = length bs"
  by (induction js arbitrary: bs) simp_all

lemma fold_put_True_nth:
  "i < length bs \<Longrightarrow> fold (\<lambda>j r. r[j := True]) js bs ! i = (bs ! i \<or> i \<in> set js)"
proof (induction js arbitrary: bs)
  case Nil
  then show ?case by simp
next
  case (Cons j js)
  have "fold (\<lambda>j r. r[j := True]) (j # js) bs ! i = (bs[j := True] ! i \<or> i \<in> set js)"
    using Cons.IH [of "bs[j := True]"] Cons.prems by simp
  also have "bs[j := True] ! i = (bs ! i \<or> i = j)"
    using Cons.prems by (cases "i = j") simp_all
  finally show ?case by auto
qed

lemma index_put_True_Inr:
  assumes "index_put_True bs js = Inr bs'"
  shows "length bs' = length bs" and "\<And>i. i < length bs \<Longrightarrow> bs' ! i = (bs ! i \<or> i \<in> set js)"
  using assms by (auto simp: index_put_True_def fold_put_True_length fold_put_True_nth split: if_splits)

lemma index_put_True_unread_set:
  assumes "index_put_True bs js = Inr bs'"
  shows "unread_set bs' = unread_set bs - set js"
  using index_put_True_Inr [OF assms] by (auto simp: unread_set_def)

lemma index_put_True_count_ge:
  assumes "index_put_True bs js = Inr bs'"
  shows "unread_count bs \<le> unread_count bs' + length js"
proof -
  have "card (unread_set bs) - card (set js) \<le> card (unread_set bs - set js)"
    by (rule diff_card_le_card_Diff) simp
  moreover have "card (set js) \<le> length js" by (rule card_length)
  ultimately show ?thesis
    by (simp add: unread_count_card index_put_True_unread_set [OF assms])
qed

lemma index_put_True_count_eq:
  assumes "index_put_True bs js = Inr bs'" and "distinct js" and "set js \<subseteq> unread_set bs"
  shows "unread_count bs' = unread_count bs - length js"
proof -
  have "card (unread_set bs - set js) = card (unread_set bs) - card (set js)"
    using assms(3) by (simp add: card_Diff_subset)
  then show ?thesis
    using assms(2) by (simp add: unread_count_card index_put_True_unread_set [OF assms(1)] distinct_card)
qed

lemma index_put_True_ok:
  "set js \<subseteq> unread_set bs \<Longrightarrow> \<exists>bs'. index_put_True bs js = Inr bs'"
  by (auto simp: index_put_True_def list_all_iff unread_set_def)

subsection \<open>Masks\<close>

lemma mask_row_rel_masked:
  assumes "length r = length mr" and "length r' = length mr"
    and "\<And>l. l < length mr \<Longrightarrow> mr ! l \<noteq> 0 \<Longrightarrow> R (r ! l) (r' ! l)"
  shows "list_all2 R (map fst (filter (\<lambda>(v, a). a \<noteq> (0::int)) (zip r mr)))
                     (map fst (filter (\<lambda>(v, a). a \<noteq> 0) (zip r' mr)))"
  using assms(1) assms(2) [symmetric] assms(3)
proof (induction r mr r' rule: list_induct3)
  case Nil
  then show ?case by simp
next
  case (Cons x xs m ms y ys)
  have t: "list_all2 R (map fst (filter (\<lambda>(v, a). a \<noteq> 0) (zip xs ms)))
                       (map fst (filter (\<lambda>(v, a). a \<noteq> 0) (zip ys ms)))"
  proof (rule Cons.IH)
    fix l assume "l < length ms" "ms ! l \<noteq> 0"
    then show "R (xs ! l) (ys ! l)" using Cons.prems [of "Suc l"] by simp
  qed
  show ?case
  proof (cases "m = 0")
    case True
    with t show ?thesis by simp
  next
    case False
    with Cons.prems [of 0] have "R x y" by simp
    with t False show ?thesis by simp
  qed
qed

lemma mask_rows_rel_masked:
  assumes "length h = length am" and "length h' = length am"
    and "\<And>b. b < length am \<Longrightarrow> length (h ! b) = length (am ! b) \<and> length (h' ! b) = length (am ! b)"
    and "\<And>b l. b < length am \<Longrightarrow> l < length (am ! b) \<Longrightarrow> am ! b ! l \<noteq> 0 \<Longrightarrow> R (h ! b ! l) (h' ! b ! l)"
  shows "list_all2 R
     (concat (map (\<lambda>(r, mr). map fst (filter (\<lambda>(v, a). a \<noteq> (0::int)) (zip r mr))) (zip h am)))
     (concat (map (\<lambda>(r, mr). map fst (filter (\<lambda>(v, a). a \<noteq> 0) (zip r mr))) (zip h' am)))"
  using assms(1) assms(2) [symmetric] assms(3,4)
proof (induction h am h' rule: list_induct3)
  case Nil
  then show ?case by simp
next
  case (Cons x xs m ms y ys)
  have hd: "list_all2 R (map fst (filter (\<lambda>(v, a). a \<noteq> 0) (zip x m)))
                        (map fst (filter (\<lambda>(v, a). a \<noteq> 0) (zip y m)))"
  proof (rule mask_row_rel_masked)
    show "length x = length m" "length y = length m" using Cons.prems(1) [of 0] by simp_all
    fix l assume "l < length m" "m ! l \<noteq> 0"
    then show "R (x ! l) (y ! l)" using Cons.prems(2) [of 0 l] by simp
  qed
  have tl: "list_all2 R
     (concat (map (\<lambda>(r, mr). map fst (filter (\<lambda>(v, a). a \<noteq> 0) (zip r mr))) (zip xs ms)))
     (concat (map (\<lambda>(r, mr). map fst (filter (\<lambda>(v, a). a \<noteq> 0) (zip r mr))) (zip ys ms)))"
  proof (rule Cons.IH)
    fix b assume "b < length ms"
    then show "length (xs ! b) = length (ms ! b) \<and> length (ys ! b) = length (ms ! b)"
      using Cons.prems(1) [of "Suc b"] by simp
  next
    fix b l assume "b < length ms" "l < length (ms ! b)" "ms ! b ! l \<noteq> 0"
    then show "R (xs ! b ! l) (ys ! b ! l)" using Cons.prems(2) [of "Suc b" l] by simp
  qed
  from hd tl show ?case by (simp add: list_all2_appendI)
qed

lemma mask_index2_rel_masked:
  assumes "mask_index2 h am = Inr xs" and "mask_index2 h' am = Inr ys"
    and "\<And>b l. b < length am \<Longrightarrow> l < length (am ! b) \<Longrightarrow> am ! b ! l \<noteq> 0 \<Longrightarrow> R (h ! b ! l) (h' ! b ! l)"
  shows "list_all2 R xs ys"
proof -
  from assms(1,2) have sh: "map length am = map length h" "map length am = map length h'"
    by (auto simp: mask_index2_def split: if_splits)
  then have lh: "length h = length am" "length h' = length am"
    by (metis length_map)+
  have rows: "\<And>b. b < length am \<Longrightarrow> length (h ! b) = length (am ! b) \<and> length (h' ! b) = length (am ! b)"
    using sh lh by (metis nth_map)
  have "list_all2 R
     (concat (map (\<lambda>(r, mr). map fst (filter (\<lambda>(v, a). a \<noteq> (0::int)) (zip r mr))) (zip h am)))
     (concat (map (\<lambda>(r, mr). map fst (filter (\<lambda>(v, a). a \<noteq> 0) (zip r mr))) (zip h' am)))"
    using lh rows assms(3) by (rule mask_rows_rel_masked)
  with assms(1,2) show ?thesis
    by (auto simp: mask_index2_def split: if_splits)
qed

lemma mask_index2_same_length:
  assumes "mask_index2 h am = Inr xs" and "mask_index2 h' am = Inr ys"
  shows "length xs = length ys"
  using mask_index2_rel_masked [OF assms, of "\<lambda>x y. True"] by (simp add: list_all2_lengthD)

lemma mask_index_rel:
  assumes "list_all2 R a b" and "mask_index a m = Inr a'" and "mask_index b m = Inr b'"
  shows "list_all2 R a' b'"
proof -
  have "list_all2 R (map fst (filter snd (zip a m))) (map fst (filter snd (zip b m)))"
    using assms(1)
  proof (induction arbitrary: m rule: list_all2_induct)
    case Nil
    then show ?case by simp
  next
    case (Cons x xs y ys)
    then show ?case by (cases m) auto
  qed
  with assms(2,3) show ?thesis by (auto simp: mask_index_def split: if_splits)
qed

lemma length_mask_index_Not:
  "mask_index a (map Not rd) = Inr a' \<Longrightarrow> length rd = length a \<and> length a' = unread_count rd"
proof -
  assume m: "mask_index a (map Not rd) = Inr a'"
  then have l: "length rd = length a" and a': "a' = map fst (filter snd (zip a (map Not rd)))"
    by (auto simp: mask_index_def split: if_splits)
  have "length (filter snd (zip a (map Not rd))) = length (filter Not rd)"
    using l
  proof (induction a arbitrary: rd)
    case Nil
    then show ?case by simp
  next
    case (Cons x xs)
    then show ?case by (cases rd) auto
  qed
  with l a' show ?thesis by (simp add: unread_count_def)
qed

subsection \<open>Serving a batch\<close>

lemma serve_one: "unread_count (read s) = 1 \<Longrightarrow> serve rp s = (Inl TypeError, s)"
  by (simp add: serve_def select_idxs_one)

lemma serve_Inr:
  assumes "serve rp s = (Inr b, s')"
  obtains idxs rd' where
    "select_idxs rp (out_batch_size s) (read s) = Inr idxs"
    "index_put_True (read s) idxs = Inr rd'"
    "s' = s\<lparr>read := rd'\<rparr>"
    "batch_len b = length idxs"
  using assms
  by (auto simp: serve_def Let_def index_rows_def split: sum.splits option.splits if_splits)

lemma serve_Inr_in_to_out:
  assumes "serve rp s = (Inr b, s')" and "\<not> (io s = ''in'' \<or> io s = ''out'')"
  obtains idxs a_in a_out where
    "select_idxs rp (out_batch_size s) (read s) = Inr idxs"
    "activations_in s = Some a_in" "activations_out s = Some a_out"
    "list_all (\<lambda>j. j < length a_in) idxs" "list_all (\<lambda>j. j < length a_out) idxs"
    "b = Pair (map (\<lambda>j. a_in ! j) idxs) (map (\<lambda>j. a_out ! j) idxs)"
  using assms
  by (auto simp: serve_def Let_def index_rows_def split: sum.splits option.splits if_splits)

lemma serve_state:
  assumes "serve rp s = (r, s')"
  shows "s' = s\<lparr>read := read s'\<rparr>" and "length (read s') = length (read s)"
  using assms
  by (auto simp: serve_def Let_def split: sum.splits option.splits if_splits
      dest: index_put_True_Inr(1))

subsection \<open>The loop of \<open>_refresh_std\<close>\<close>

lemma text_batch_StopIteration:
  "int (length (data s)) < in_batch_size s \<Longrightarrow> text_batch None s = (Inl StopIteration, s\<lparr>data := []\<rparr>)"
  by (auto simp: text_batch_def Let_def)

lemma refresh_std_loop_exit:
  "activations s = Some a \<Longrightarrow> \<not> int (length a) < n_ctxs s * ctx_len s \<Longrightarrow>
   refresh_std_loop s = Some (Inr (), s)"
  by (subst refresh_std_loop.simps) simp

lemma refresh_std_loop_raise:
  "activations s = Some a \<Longrightarrow> int (length a) < n_ctxs s * ctx_len s \<Longrightarrow>
   refresh_std_body s = (Inl e, s1) \<Longrightarrow> refresh_std_loop s = Some (Inl e, s1)"
  by (subst refresh_std_loop.simps) simp

lemma same_config_refl: "same_config s s"
  by (simp add: same_config_def)

lemma same_config_trans: "same_config s s1 \<Longrightarrow> same_config s1 s2 \<Longrightarrow> same_config s s2"
  by (simp add: same_config_def)

lemma refresh_std_body_frame:
  assumes "refresh_std_body s = (r, s1)"
  shows "same_config s s1" "activations_in s1 = activations_in s" "activations_out s1 = activations_out s"
    "length (data s1) \<le> length (data s)"
  using assms
  by (auto simp: refresh_std_body_def cat_def text_batch_def Let_def same_config_def
      split: if_splits sum.splits option.splits)

lemma refresh_std_body_Inr_fields:
  assumes "refresh_std_body s = (Inr u, s1)"
  shows "\<exists>a new. activations s = Some a \<and> activations s1 = Some (a @ new) \<and>
     read s1 = replicate (length (a @ new)) False"
  using assms
  by (auto simp: refresh_std_body_def cat_def text_batch_def Let_def split: if_splits sum.splits option.splits)

lemma refresh_std_loop_Inr_aux:
  assumes "refresh_std_loop s = Some y"
  shows "\<forall>u s'. y = (Inr u, s') \<longrightarrow>
      same_config s s' \<and> activations_in s' = activations_in s \<and> activations_out s' = activations_out s \<and>
      (\<exists>a'. activations s' = Some a' \<and> n_ctxs s * ctx_len s \<le> int (length a')) \<and>
      (s' = s \<or>
       (\<exists>a new. activations s = Some a \<and> int (length a) < n_ctxs s * ctx_len s \<and>
          activations s' = Some (a @ new) \<and> read s' = replicate (length (a @ new)) False))"
  using assms
proof (induction rule: refresh_std_loop.raw_induct [rotated 1, consumes 1])
  case (1 loop s y)
  show ?case
  proof (cases "activations s")
    case None
    with 1(2) show ?thesis by auto
  next
    case (Some a)
    show ?thesis
    proof (cases "int (length a) < n_ctxs s * ctx_len s")
      case False
      with 1(2) Some show ?thesis by (auto simp: same_config_refl)
    next
      case True
      obtain r s1 where b: "refresh_std_body s = (r, s1)" by (cases "refresh_std_body s")
      show ?thesis
      proof (cases r)
        case (Inl e)
        with 1(2) Some True b show ?thesis by auto
      next
        case (Inr u1)
        with 1(2) Some True b have l: "loop s1 = Some y" by simp
        note fr = refresh_std_body_frame [OF b]
        from refresh_std_body_Inr_fields [OF b [unfolded Inr]] Some obtain new where
          s1: "activations s1 = Some (a @ new)" "read s1 = replicate (length (a @ new)) False"
          by auto
        show ?thesis
        proof (intro allI impI)
          fix u s' assume y: "y = (Inr u, s')"
          with 1(1) [OF l] have
            c: "same_config s1 s'" and io: "activations_in s' = activations_in s1"
              "activations_out s' = activations_out s1"
            and ex: "\<exists>a'. activations s' = Some a' \<and> n_ctxs s1 * ctx_len s1 \<le> int (length a')"
            and d: "s' = s1 \<or>
               (\<exists>a1 new1. activations s1 = Some a1 \<and> int (length a1) < n_ctxs s1 * ctx_len s1 \<and>
                  activations s' = Some (a1 @ new1) \<and> read s' = replicate (length (a1 @ new1)) False)"
            by blast+
          have cfg: "n_ctxs s1 = n_ctxs s" "ctx_len s1 = ctx_len s"
            using fr(1) by (simp_all add: same_config_def)
          from d have "\<exists>new'. activations s' = Some (a @ new') \<and> read s' = replicate (length (a @ new')) False"
          proof
            assume "s' = s1"
            with s1 show ?thesis by blast
          next
            assume "\<exists>a1 new1. activations s1 = Some a1 \<and> int (length a1) < n_ctxs s1 * ctx_len s1 \<and>
                  activations s' = Some (a1 @ new1) \<and> read s' = replicate (length (a1 @ new1)) False"
            then obtain new1 where "activations s' = Some ((a @ new) @ new1)"
              "read s' = replicate (length ((a @ new) @ new1)) False"
              using s1 by auto
            then have "activations s' = Some (a @ (new @ new1)) \<and>
                read s' = replicate (length (a @ (new @ new1))) False"
              by simp
            then show ?thesis by blast
          qed
          with Some True have "s' = s \<or>
            (\<exists>a new. activations s = Some a \<and> int (length a) < n_ctxs s * ctx_len s \<and>
               activations s' = Some (a @ new) \<and> read s' = replicate (length (a @ new)) False)"
            by blast
          moreover have "same_config s s'" using fr(1) c by (rule same_config_trans)
          moreover have "activations_in s' = activations_in s" "activations_out s' = activations_out s"
            using io fr by simp_all
          moreover have "\<exists>a'. activations s' = Some a' \<and> n_ctxs s * ctx_len s \<le> int (length a')"
            using ex cfg by simp
          ultimately show "same_config s s' \<and> activations_in s' = activations_in s \<and> activations_out s' = activations_out s \<and>
      (\<exists>a'. activations s' = Some a' \<and> n_ctxs s * ctx_len s \<le> int (length a')) \<and>
      (s' = s \<or>
       (\<exists>a new. activations s = Some a \<and> int (length a) < n_ctxs s * ctx_len s \<and>
          activations s' = Some (a @ new) \<and> read s' = replicate (length (a @ new)) False))"
            by blast
        qed
      qed
    qed
  qed
qed

subsection \<open>The loop of \<open>_refresh_in_to_out\<close>\<close>

lemma refresh_in_to_out_body_frame:
  assumes "refresh_in_to_out_body s = (r, s1)"
  shows "same_config s s1" "activations s1 = activations s" "length (data s1) \<le> length (data s)"
  using assms
  by (auto simp: refresh_in_to_out_body_def cat_def text_batch_def Let_def same_config_def
      split: if_splits sum.splits option.splits)

lemma refresh_in_to_out_body_Inr_fields:
  assumes "refresh_in_to_out_body s = (Inr u, s1)"
  shows "\<exists>a_in a_out new_in new_out tr sh_in h_in sh_out h_out.
     activations_in s = Some a_in \<and> activations_out s = Some a_out \<and>
     model s (take (nat (in_batch_size s)) (data s)) (ctx_len s) = Inr tr \<and>
     unwrap (submodule_input tr) = Inr (sh_in, h_in) \<and>
     unwrap (submodule_output tr) = Inr (sh_out, h_out) \<and>
     mask_index2 h_in (attention_mask tr) = Inr new_in \<and>
     mask_index2 h_out (attention_mask tr) = Inr new_out \<and>
     activations_in s1 = Some (a_in @ new_in) \<and> activations_out s1 = Some (a_out @ new_out) \<and>
     read s1 = replicate (length (a_in @ new_in)) False"
  using assms
  by (auto simp: refresh_in_to_out_body_def cat_def text_batch_def Let_def split: if_splits sum.splits option.splits)

lemma refresh_in_to_out_body_Inl_fields:
  assumes "refresh_in_to_out_body s = (Inl e, s1)" and "activations_out s \<noteq> None"
    and "e \<noteq> RuntimeError"
  shows "activations_in s1 = activations_in s" "activations_out s1 = activations_out s" "read s1 = read s"
  using assms
  by (auto simp: refresh_in_to_out_body_def cat_def text_batch_def Let_def split: if_splits sum.splits option.splits)

lemma refresh_in_to_out_loop_exit:
  "activations_in s = Some a \<Longrightarrow> \<not> int (length a) < n_ctxs s * ctx_len s \<Longrightarrow>
   refresh_in_to_out_loop s = Some (Inr (), s)"
  by (subst refresh_in_to_out_loop.simps) simp

lemma refresh_in_to_out_loop_unfold:
  "activations_in s = Some a \<Longrightarrow> int (length a) < n_ctxs s * ctx_len s \<Longrightarrow>
   refresh_in_to_out_loop s =
     (case refresh_in_to_out_body s of
        (Inl e, s1) \<Rightarrow> Some (Inl e, s1)
      | (Inr u, s1) \<Rightarrow> refresh_in_to_out_loop s1)"
  by (subst refresh_in_to_out_loop.simps) simp

lemma refresh_in_to_out_loop_Inr_aux:
  assumes "refresh_in_to_out_loop s = Some y"
  shows "\<forall>u s'. y = (Inr u, s') \<longrightarrow>
      same_config s s' \<and> activations s' = activations s \<and>
      (\<exists>a'. activations_in s' = Some a' \<and> n_ctxs s * ctx_len s \<le> int (length a')) \<and>
      (s' = s \<or>
       (\<exists>a_in a_out new_in new_out. activations_in s = Some a_in \<and> activations_out s = Some a_out \<and>
          int (length a_in) < n_ctxs s * ctx_len s \<and>
          length new_in = length new_out \<and>
          activations_in s' = Some (a_in @ new_in) \<and> activations_out s' = Some (a_out @ new_out) \<and>
          read s' = replicate (length (a_in @ new_in)) False))"
  using assms
proof (induction rule: refresh_in_to_out_loop.raw_induct [rotated 1, consumes 1])
  case (1 loop s y)
  show ?case
  proof (cases "activations_in s")
    case None
    with 1(2) show ?thesis by auto
  next
    case (Some a)
    show ?thesis
    proof (cases "int (length a) < n_ctxs s * ctx_len s")
      case False
      with 1(2) Some show ?thesis by (auto simp: same_config_refl)
    next
      case True
      obtain r s1 where b: "refresh_in_to_out_body s = (r, s1)" by (cases "refresh_in_to_out_body s")
      show ?thesis
      proof (cases r)
        case (Inl e)
        with 1(2) Some True b show ?thesis by auto
      next
        case (Inr u1)
        with 1(2) Some True b have l: "loop s1 = Some y" by simp
        note fr = refresh_in_to_out_body_frame [OF b]
        from refresh_in_to_out_body_Inr_fields [OF b [unfolded Inr]] Some obtain a_out new_in new_out h_in h_out am where
          ao: "activations_out s = Some a_out"
          and m: "mask_index2 h_in am = Inr new_in" "mask_index2 h_out am = Inr new_out"
          and s1: "activations_in s1 = Some (a @ new_in)" "activations_out s1 = Some (a_out @ new_out)"
          and rd1: "read s1 = replicate (length (a @ new_in)) False"
          by auto
        have len: "length new_in = length new_out"
          using m by (rule mask_index2_same_length)
        show ?thesis
        proof (intro allI impI)
          fix u s' assume y: "y = (Inr u, s')"
          with 1(1) [OF l] have
            c: "same_config s1 s'" and act: "activations s' = activations s1"
            and ex: "\<exists>a'. activations_in s' = Some a' \<and> n_ctxs s1 * ctx_len s1 \<le> int (length a')"
            and d: "s' = s1 \<or>
               (\<exists>a1 b1 new1 new2. activations_in s1 = Some a1 \<and> activations_out s1 = Some b1 \<and>
                  int (length a1) < n_ctxs s1 * ctx_len s1 \<and> length new1 = length new2 \<and>
                  activations_in s' = Some (a1 @ new1) \<and> activations_out s' = Some (b1 @ new2) \<and>
                  read s' = replicate (length (a1 @ new1)) False)"
            by blast+
          have cfg: "n_ctxs s1 = n_ctxs s" "ctx_len s1 = ctx_len s"
            using fr(1) by (simp_all add: same_config_def)
          from d have "\<exists>n1 n2. length n1 = length n2 \<and> activations_in s' = Some (a @ n1) \<and>
              activations_out s' = Some (a_out @ n2) \<and> read s' = replicate (length (a @ n1)) False"
          proof
            assume "s' = s1"
            with s1 rd1 len show ?thesis by blast
          next
            assume "\<exists>a1 b1 new1 new2. activations_in s1 = Some a1 \<and> activations_out s1 = Some b1 \<and>
                  int (length a1) < n_ctxs s1 * ctx_len s1 \<and> length new1 = length new2 \<and>
                  activations_in s' = Some (a1 @ new1) \<and> activations_out s' = Some (b1 @ new2) \<and>
                  read s' = replicate (length (a1 @ new1)) False"
            then obtain new1 new2 where "length new1 = length new2"
              "activations_in s' = Some ((a @ new_in) @ new1)"
              "activations_out s' = Some ((a_out @ new_out) @ new2)"
              "read s' = replicate (length ((a @ new_in) @ new1)) False"
              using s1 by auto
            with len have "length (new_in @ new1) = length (new_out @ new2) \<and>
                activations_in s' = Some (a @ (new_in @ new1)) \<and>
                activations_out s' = Some (a_out @ (new_out @ new2)) \<and>
                read s' = replicate (length (a @ (new_in @ new1))) False"
              by simp
            then show ?thesis by blast
          qed
          with Some ao True have "s' = s \<or>
       (\<exists>a_in a_out new_in new_out. activations_in s = Some a_in \<and> activations_out s = Some a_out \<and>
          int (length a_in) < n_ctxs s * ctx_len s \<and>
          length new_in = length new_out \<and>
          activations_in s' = Some (a_in @ new_in) \<and> activations_out s' = Some (a_out @ new_out) \<and>
          read s' = replicate (length (a_in @ new_in)) False)"
            by blast
          moreover have "same_config s s'" using fr(1) c by (rule same_config_trans)
          moreover have "activations s' = activations s"
            using act fr by simp
          moreover have "\<exists>a'. activations_in s' = Some a' \<and> n_ctxs s * ctx_len s \<le> int (length a')"
            using ex cfg by simp
          ultimately show "same_config s s' \<and> activations s' = activations s \<and>
      (\<exists>a'. activations_in s' = Some a' \<and> n_ctxs s * ctx_len s \<le> int (length a')) \<and>
      (s' = s \<or>
       (\<exists>a_in a_out new_in new_out. activations_in s = Some a_in \<and> activations_out s = Some a_out \<and>
          int (length a_in) < n_ctxs s * ctx_len s \<and>
          length new_in = length new_out \<and>
          activations_in s' = Some (a_in @ new_in) \<and> activations_out s' = Some (a_out @ new_out) \<and>
          read s' = replicate (length (a_in @ new_in)) False))"
            by blast
        qed
      qed
    qed
  qed
qed

subsection \<open>What a refresh that returns has done\<close>

lemma refresh_std_Inr:
  assumes "refresh_std s = Some (Inr u, s1)"
  shows "\<exists>a kept. activations s = Some a \<and> mask_index a (map Not (read s)) = Inr kept \<and>
     same_config s s1 \<and> activations_in s1 = activations_in s \<and> activations_out s1 = activations_out s \<and>
     (\<exists>a1. activations s1 = Some a1 \<and> n_ctxs s * ctx_len s \<le> int (length a1)) \<and>
     (\<not> int (length kept) < n_ctxs s * ctx_len s \<and> activations s1 = Some kept \<and> read s1 = read s \<or>
      int (length kept) < n_ctxs s * ctx_len s \<and>
      (\<exists>new. activations s1 = Some (kept @ new) \<and> read s1 = replicate (length (kept @ new)) False))"
proof -
  from assms obtain a kept where a: "activations s = Some a"
    and k: "mask_index a (map Not (read s)) = Inr kept"
    and l: "refresh_std_loop (s\<lparr>activations := Some kept\<rparr>) = Some (Inr u, s1)"
    by (auto simp: refresh_std_def split: option.splits sum.splits)
  let ?s0 = "s\<lparr>activations := Some kept\<rparr>"
  from refresh_std_loop_Inr_aux [OF l] have
    c: "same_config ?s0 s1" and io: "activations_in s1 = activations_in ?s0" "activations_out s1 = activations_out ?s0"
    and ex: "\<exists>a'. activations s1 = Some a' \<and> n_ctxs ?s0 * ctx_len ?s0 \<le> int (length a')"
    and d: "s1 = ?s0 \<or>
       (\<exists>a new. activations ?s0 = Some a \<and> int (length a) < n_ctxs ?s0 * ctx_len ?s0 \<and>
          activations s1 = Some (a @ new) \<and> read s1 = replicate (length (a @ new)) False)"
    by blast+
  from d have "\<not> int (length kept) < n_ctxs s * ctx_len s \<and> activations s1 = Some kept \<and> read s1 = read s \<or>
      int (length kept) < n_ctxs s * ctx_len s \<and>
      (\<exists>new. activations s1 = Some (kept @ new) \<and> read s1 = replicate (length (kept @ new)) False)"
  proof
    assume e: "s1 = ?s0"
    with ex have "\<not> int (length kept) < n_ctxs s * ctx_len s" by auto
    with e show ?thesis by simp
  next
    assume "\<exists>a new. activations ?s0 = Some a \<and> int (length a) < n_ctxs ?s0 * ctx_len ?s0 \<and>
          activations s1 = Some (a @ new) \<and> read s1 = replicate (length (a @ new)) False"
    then show ?thesis by auto
  qed
  moreover have "same_config s s1" using c by (simp add: same_config_def)
  ultimately show ?thesis using a k io ex by auto
qed

lemma refresh_in_to_out_Inr:
  assumes "refresh_in_to_out s = Some (Inr u, s1)"
  shows "\<exists>a_in a_out kept_in kept_out. activations_in s = Some a_in \<and> activations_out s = Some a_out \<and>
     mask_index a_in (map Not (read s)) = Inr kept_in \<and>
     mask_index a_out (map Not (read s)) = Inr kept_out \<and>
     same_config s s1 \<and> activations s1 = activations s \<and>
     (\<exists>a1. activations_in s1 = Some a1 \<and> n_ctxs s * ctx_len s \<le> int (length a1)) \<and>
     (\<not> int (length kept_in) < n_ctxs s * ctx_len s \<and> activations_in s1 = Some kept_in \<and>
        activations_out s1 = Some kept_out \<and> read s1 = read s \<or>
      int (length kept_in) < n_ctxs s * ctx_len s \<and>
      (\<exists>new_in new_out. length new_in = length new_out \<and>
         activations_in s1 = Some (kept_in @ new_in) \<and> activations_out s1 = Some (kept_out @ new_out) \<and>
         read s1 = replicate (length (kept_in @ new_in)) False))"
proof -
  from assms obtain a_in a_out kept_in kept_out where a: "activations_in s = Some a_in" "activations_out s = Some a_out"
    and k: "mask_index a_in (map Not (read s)) = Inr kept_in" "mask_index a_out (map Not (read s)) = Inr kept_out"
    and l: "refresh_in_to_out_loop (s\<lparr>activations_in := Some kept_in, activations_out := Some kept_out\<rparr>) = Some (Inr u, s1)"
    by (auto simp: refresh_in_to_out_def split: option.splits sum.splits)
  let ?s0 = "s\<lparr>activations_in := Some kept_in, activations_out := Some kept_out\<rparr>"
  from refresh_in_to_out_loop_Inr_aux [OF l] have
    c: "same_config ?s0 s1" and act: "activations s1 = activations ?s0"
    and ex: "\<exists>a'. activations_in s1 = Some a' \<and> n_ctxs ?s0 * ctx_len ?s0 \<le> int (length a')"
    and d: "s1 = ?s0 \<or>
       (\<exists>a_in a_out new_in new_out. activations_in ?s0 = Some a_in \<and> activations_out ?s0 = Some a_out \<and>
          int (length a_in) < n_ctxs ?s0 * ctx_len ?s0 \<and>
          length new_in = length new_out \<and>
          activations_in s1 = Some (a_in @ new_in) \<and> activations_out s1 = Some (a_out @ new_out) \<and>
          read s1 = replicate (length (a_in @ new_in)) False)"
    by blast+
  from d have "\<not> int (length kept_in) < n_ctxs s * ctx_len s \<and> activations_in s1 = Some kept_in \<and>
        activations_out s1 = Some kept_out \<and> read s1 = read s \<or>
      int (length kept_in) < n_ctxs s * ctx_len s \<and>
      (\<exists>new_in new_out. length new_in = length new_out \<and>
         activations_in s1 = Some (kept_in @ new_in) \<and> activations_out s1 = Some (kept_out @ new_out) \<and>
         read s1 = replicate (length (kept_in @ new_in)) False)"
  proof
    assume e: "s1 = ?s0"
    with ex have "\<not> int (length kept_in) < n_ctxs s * ctx_len s" by auto
    with e show ?thesis by simp
  next
    assume "\<exists>a_in a_out new_in new_out. activations_in ?s0 = Some a_in \<and> activations_out ?s0 = Some a_out \<and>
          int (length a_in) < n_ctxs ?s0 * ctx_len ?s0 \<and>
          length new_in = length new_out \<and>
          activations_in s1 = Some (a_in @ new_in) \<and> activations_out s1 = Some (a_out @ new_out) \<and>
          read s1 = replicate (length (a_in @ new_in)) False"
    then show ?thesis by auto
  qed
  moreover have "same_config s s1" using c by (simp add: same_config_def)
  ultimately show ?thesis using a k act ex by auto
qed

lemma refresh_low_Inr:
  assumes "refresh s = Some (Inr u, s1)"
    and "int (unread_count (read s)) < n_ctxs s * ctx_len s"
  shows "same_config s s1" and "synced s1" and "read s1 = replicate (length (read s1)) False"
    and "n_ctxs s * ctx_len s \<le> int (length (read s1))"
proof -
  have "same_config s s1 \<and> synced s1 \<and> read s1 = replicate (length (read s1)) False \<and>
    n_ctxs s * ctx_len s \<le> int (length (read s1))"
  proof (cases "io s = ''in'' \<or> io s = ''out''")
    case True
    with assms(1) have r: "refresh_std s = Some (Inr u, s1)" by (simp add: refresh_def)
    from refresh_std_Inr [OF r] obtain a kept where
      k: "mask_index a (map Not (read s))= Inr kept" and c: "same_config s s1"
      and ex: "\<exists>a1. activations s1 = Some a1 \<and> n_ctxs s * ctx_len s \<le> int (length a1)"
      and d: "\<not> int (length kept) < n_ctxs s * ctx_len s \<and> activations s1 = Some kept \<and> read s1 = read s \<or>
      int (length kept) < n_ctxs s * ctx_len s \<and>
      (\<exists>new. activations s1 = Some (kept @ new) \<and> read s1 = replicate (length (kept @ new)) False)"
      by blast
    from length_mask_index_Not [OF k] assms(2) have "int (length kept) < n_ctxs s * ctx_len s" by simp
    with d obtain new where n: "activations s1 = Some (kept @ new)" "read s1 = replicate (length (kept @ new)) False"
      by auto
    from c True have "io s1 = ''in'' \<or> io s1 = ''out''" by (simp add: same_config_def)
    with n ex c show ?thesis by (auto simp: synced_def)
  next
    case False
    with assms(1) have r: "refresh_in_to_out s = Some (Inr u, s1)" by (simp add: refresh_def)
    from refresh_in_to_out_Inr [OF r] obtain a_in a_out kept_in kept_out where
      k: "mask_index a_in (map Not (read s)) = Inr kept_in" "mask_index a_out (map Not (read s)) = Inr kept_out"
      and c: "same_config s s1"
      and ex: "\<exists>a1. activations_in s1 = Some a1 \<and> n_ctxs s * ctx_len s \<le> int (length a1)"
      and d: "\<not> int (length kept_in) < n_ctxs s * ctx_len s \<and> activations_in s1 = Some kept_in \<and>
        activations_out s1 = Some kept_out \<and> read s1 = read s \<or>
      int (length kept_in) < n_ctxs s * ctx_len s \<and>
      (\<exists>new_in new_out. length new_in = length new_out \<and>
         activations_in s1 = Some (kept_in @ new_in) \<and> activations_out s1 = Some (kept_out @ new_out) \<and>
         read s1 = replicate (length (kept_in @ new_in)) False)"
      by blast
    from length_mask_index_Not [OF k(1)] length_mask_index_Not [OF k(2)] assms(2)
    have lk: "int (length kept_in) < n_ctxs s * ctx_len s" "length kept_out = length kept_in" by simp_all
    with d obtain new_in new_out where n: "length new_in = length new_out"
      "activations_in s1 = Some (kept_in @ new_in)" "activations_out s1 = Some (kept_out @ new_out)"
      "read s1 = replicate (length (kept_in @ new_in)) False"
      by auto
    from c False have "\<not> (io s1 = ''in'' \<or> io s1 = ''out'')" by (simp add: same_config_def)
    with n ex c lk show ?thesis by (auto simp: synced_def)
  qed
  then show "same_config s s1" and "synced s1" and "read s1 = replicate (length (read s1)) False"
    and "n_ctxs s * ctx_len s \<le> int (length (read s1))" by simp_all
qed

lemma tensor_lt_True:
  assumes "tensor_lt x y = Inr True" and "0 \<le> x"
  shows "x < y" and "y < 2 ^ 63"
  using assms by (auto simp: tensor_lt_def split: if_splits)

lemma tensor_lt_False:
  assumes "tensor_lt x y = Inr False" and "y < 2 ^ 63"
  shows "y \<le> x"
  using assms by (auto simp: tensor_lt_def split: if_splits)

lemma tensor_lt_in_range: "- (2 ^ 63) \<le> y \<Longrightarrow> y < 2 ^ 63 \<Longrightarrow> tensor_lt x y = Inr (x < y)"
  by (simp add: tensor_lt_def)

lemma below_threshold_True:
  assumes "below_threshold s = Inr True"
  shows "int (unread_count (read s)) < n_ctxs s * ctx_len s div 2"
    and "n_ctxs s * ctx_len s div 2 < 2 ^ 63"
  using assms tensor_lt_True [of "int (unread_count (read s))" "n_ctxs s * ctx_len s div 2"]
  by (simp_all add: below_threshold_def)

lemma below_threshold_in_range:
  assumes "- (2 ^ 63) \<le> n_ctxs s * ctx_len s div 2" and "n_ctxs s * ctx_len s div 2 < 2 ^ 63"
  shows "below_threshold s = Inr (int (unread_count (read s)) < n_ctxs s * ctx_len s div 2)"
  using assms by (simp add: below_threshold_def tensor_lt_in_range)

lemma below_threshold_iff:
  "below_threshold s = Inr True \<longleftrightarrow>
     int (unread_count (read s)) < n_ctxs s * ctx_len s div 2 \<and> n_ctxs s * ctx_len s div 2 < 2 ^ 63"
  by (auto simp: below_threshold_def tensor_lt_def)

lemma next_batch_Inr:
  assumes "next_batch rp s = Some (Inr b, s')"
  shows "\<exists>s1. (if below_threshold s = Inr True
               then refresh s = Some (Inr (), s1) else s1 = s) \<and> serve rp s1 = (Inr b, s')"
  using assms
  by (auto simp: next_batch_def split: if_splits option.splits sum.splits prod.splits)

lemma next_batch_Inr_compared:
  assumes "next_batch rp s = Some (Inr b, s')"
  shows "\<exists>low. below_threshold s = Inr low"
  using assms by (auto simp: next_batch_def split: sum.splits)

lemma threshold_le_target:
  assumes "below_threshold s = Inr True"
  shows "int (unread_count (read s)) < n_ctxs s * ctx_len s"
    and "n_ctxs s * ctx_len s div 2 \<le> n_ctxs s * ctx_len s"
  using below_threshold_True(1) [OF assms] by linarith+

subsection \<open>Serving with a permutation\<close>

lemma serve_randperm_idxs:
  assumes "is_randperm rp" and "unread_count (read s) \<noteq> 1"
  shows "\<exists>idxs rd'. select_idxs rp (out_batch_size s) (read s) = Inr idxs \<and>
     index_put_True (read s) idxs = Inr rd' \<and> distinct idxs \<and> set idxs \<subseteq> unread_set (read s) \<and>
     length idxs = length (slice_to (out_batch_size s) (rp (unread_count (read s)))) \<and>
     length rd' = length (read s) \<and> unread_count rd' = unread_count (read s) - length idxs"
proof -
  define idxs where
    "idxs = map (\<lambda>j. nonzero (map Not (read s)) ! j) (slice_to (out_batch_size s) (rp (unread_count (read s))))"
  have sel: "select_idxs rp (out_batch_size s) (read s) = Inr idxs"
    unfolding idxs_def using assms by (rule select_idxs_randperm)
  have d: "distinct idxs" using assms(1) sel by (rule select_idxs_distinct)
  have sub: "set idxs \<subseteq> unread_set (read s)" using sel by (rule select_idxs_Inr(4))
  from index_put_True_ok [OF sub] obtain rd' where p: "index_put_True (read s) idxs = Inr rd'" ..
  have l: "length rd' = length (read s)" using p by (rule index_put_True_Inr(1))
  have c: "unread_count rd' = unread_count (read s) - length idxs"
    using p d sub by (rule index_put_True_count_eq)
  have n: "length idxs = length (slice_to (out_batch_size s) (rp (unread_count (read s))))"
    by (simp add: idxs_def)
  from sel p d sub n l c show ?thesis by blast
qed

lemma serve_randperm_std:
  assumes "is_randperm rp" and "unread_count (read s) \<noteq> 1"
    and "io s = ''in'' \<or> io s = ''out''" and "activations s = Some a" and "length (read s) = length a"
  shows "\<exists>idxs rd'. serve rp s = (Inr (Single (map (\<lambda>j. a ! j) idxs)), s\<lparr>read := rd'\<rparr>) \<and>
     select_idxs rp (out_batch_size s) (read s) = Inr idxs \<and>
     index_put_True (read s) idxs = Inr rd' \<and> distinct idxs \<and> set idxs \<subseteq> unread_set (read s) \<and>
     length idxs = length (slice_to (out_batch_size s) (rp (unread_count (read s)))) \<and>
     length rd' = length (read s) \<and> unread_count rd' = unread_count (read s) - length idxs"
proof -
  from serve_randperm_idxs [OF assms(1,2)] obtain idxs rd' where
    f: "select_idxs rp (out_batch_size s) (read s) = Inr idxs"
     "index_put_True (read s) idxs = Inr rd'" "distinct idxs" "set idxs \<subseteq> unread_set (read s)"
     "length idxs = length (slice_to (out_batch_size s) (rp (unread_count (read s))))"
     "length rd' = length (read s)" "unread_count rd' = unread_count (read s) - length idxs"
    by blast
  have "list_all (\<lambda>j. j < length a) idxs"
    using f(4) assms(5) by (auto simp: list_all_iff unread_set_def)
  then have "serve rp s = (Inr (Single (map (\<lambda>j. a ! j) idxs)), s\<lparr>read := rd'\<rparr>)"
    using f(1,2) assms(3,4) by (simp add: serve_def index_rows_def)
  with f show ?thesis by blast
qed

lemma serve_randperm_in_to_out:
  assumes "is_randperm rp" and "unread_count (read s) \<noteq> 1"
    and "\<not> (io s = ''in'' \<or> io s = ''out'')"
    and "activations_in s = Some a_in" and "activations_out s = Some a_out"
    and "length (read s) = length a_in" and "length a_out = length a_in"
  shows "\<exists>idxs rd'. serve rp s =
       (Inr (Pair (map (\<lambda>j. a_in ! j) idxs) (map (\<lambda>j. a_out ! j) idxs)), s\<lparr>read := rd'\<rparr>) \<and>
     select_idxs rp (out_batch_size s) (read s) = Inr idxs \<and>
     index_put_True (read s) idxs = Inr rd' \<and> distinct idxs \<and> set idxs \<subseteq> unread_set (read s) \<and>
     length idxs = length (slice_to (out_batch_size s) (rp (unread_count (read s)))) \<and>
     length rd' = length (read s) \<and> unread_count rd' = unread_count (read s) - length idxs"
proof -
  from serve_randperm_idxs [OF assms(1,2)] obtain idxs rd' where
    f: "select_idxs rp (out_batch_size s) (read s) = Inr idxs"
     "index_put_True (read s) idxs = Inr rd'" "distinct idxs" "set idxs \<subseteq> unread_set (read s)"
     "length idxs = length (slice_to (out_batch_size s) (rp (unread_count (read s))))"
     "length rd' = length (read s)" "unread_count rd' = unread_count (read s) - length idxs"
    by blast
  have "list_all (\<lambda>j. j < length a_in) idxs" "list_all (\<lambda>j. j < length a_out) idxs"
    using f(4) assms(6,7) by (auto simp: list_all_iff unread_set_def)
  then have "serve rp s =
       (Inr (Pair (map (\<lambda>j. a_in ! j) idxs) (map (\<lambda>j. a_out ! j) idxs)), s\<lparr>read := rd'\<rparr>)"
    using f(1,2) assms(3,4,5) by (simp add: serve_def index_rows_def)
  with f show ?thesis by blast
qed

subsection \<open>The two buffers stay aligned\<close>

lemma aligned_read_update: "aligned R (s\<lparr>read := rd\<rparr>) = aligned R s"
  by (simp add: aligned_def split: option.splits)

lemma serve_aligned:
  assumes "serve rp s = (r, s')" and "aligned R s"
  shows "aligned R s'" and "io s' = io s" and "model s' = model s"
proof -
  from serve_state(1) [OF assms(1)] have e: "s' = s\<lparr>read := read s'\<rparr>" .
  have "aligned R (s\<lparr>read := read s'\<rparr>)" using assms(2) by (simp add: aligned_read_update)
  with e show "aligned R s'" by simp
  have "io (s\<lparr>read := read s'\<rparr>) = io s" "model (s\<lparr>read := read s'\<rparr>) = model s" by simp_all
  with e show "io s' = io s" "model s' = model s" by simp_all
qed

lemma serve_pair_aligned:
  assumes "serve rp s = (Inr b, s')" and "aligned R s" and "\<not> (io s = ''in'' \<or> io s = ''out'')"
  shows "\<exists>b_in b_out. b = Pair b_in b_out \<and> list_all2 R b_in b_out"
proof -
  from assms(1,3) obtain idxs a_in a_out where
    a: "activations_in s = Some a_in" "activations_out s = Some a_out"
    and r: "list_all (\<lambda>j. j < length a_in) idxs"
    and b: "b = Pair (map (\<lambda>j. a_in ! j) idxs) (map (\<lambda>j. a_out ! j) idxs)"
    by (rule serve_Inr_in_to_out)
  from assms(2) a have al: "list_all2 R a_in a_out" by (simp add: aligned_def)
  have "list_all2 R (map (\<lambda>j. a_in ! j) idxs) (map (\<lambda>j. a_out ! j) idxs)"
    using r al by (auto simp: list_all2_conv_all_nth list_all_iff)
  with b show ?thesis by blast
qed

lemma refresh_in_to_out_body_aligned:
  assumes "refresh_in_to_out_body s = (r, s1)" and "aligned R s" and "taps_related R (model s)"
    and "r \<noteq> Inl RuntimeError"
  shows "aligned R s1"
proof (cases r)
  case (Inl e)
  from assms(2) have "activations_out s \<noteq> None" by (auto simp: aligned_def split: option.splits)
  moreover from assms(4) Inl have "e \<noteq> RuntimeError" by simp
  ultimately show ?thesis
    using refresh_in_to_out_body_Inl_fields [OF assms(1) [unfolded Inl]] assms(2)
    by (auto simp: aligned_def split: option.splits)
next
  case (Inr u)
  from refresh_in_to_out_body_Inr_fields [OF assms(1) [unfolded Inr]]
  obtain a_in a_out new_in new_out tr sh_in h_in sh_out h_out
    where a: "activations_in s = Some a_in" "activations_out s = Some a_out"
      and m: "model s (take (nat (in_batch_size s)) (data s)) (ctx_len s) = Inr tr"
      and u: "unwrap (submodule_input tr) = Inr (sh_in, h_in)"
         "unwrap (submodule_output tr) = Inr (sh_out, h_out)"
      and k: "mask_index2 h_in (attention_mask tr) = Inr new_in"
         "mask_index2 h_out (attention_mask tr) = Inr new_out"
      and s1: "activations_in s1 = Some (a_in @ new_in)" "activations_out s1 = Some (a_out @ new_out)"
    by blast
  have "list_all2 R new_in new_out"
  proof (rule mask_index2_rel_masked [OF k])
    fix b l assume "b < length (attention_mask tr)" "l < length (attention_mask tr ! b)"
      "attention_mask tr ! b ! l \<noteq> 0"
    with assms(3) m u show "R (h_in ! b ! l) (h_out ! b ! l)"
      unfolding taps_related_def by blast
  qed
  moreover from assms(2) a have "list_all2 R a_in a_out" by (simp add: aligned_def)
  ultimately show ?thesis using s1 by (simp add: aligned_def list_all2_appendI)
qed

lemma refresh_in_to_out_loop_aligned:
  assumes "refresh_in_to_out_loop s = Some y"
  shows "aligned R s \<and> taps_related R (model s) \<and> fst y \<noteq> Inl RuntimeError \<longrightarrow>
     aligned R (snd y) \<and> same_config s (snd y)"
  using assms
proof (induction rule: refresh_in_to_out_loop.raw_induct [rotated 1, consumes 1])
  case (1 loop s y)
  show ?case
  proof (intro impI)
    assume h: "aligned R s \<and> taps_related R (model s) \<and> fst y \<noteq> Inl RuntimeError"
    then obtain a where a: "activations_in s = Some a" by (auto simp: aligned_def split: option.splits)
    show "aligned R (snd y) \<and> same_config s (snd y)"
    proof (cases "int (length a) < n_ctxs s * ctx_len s")
      case False
      with 1(2) a h show ?thesis by (auto simp: same_config_refl)
    next
      case True
      obtain r s1 where b: "refresh_in_to_out_body s = (r, s1)" by (cases "refresh_in_to_out_body s")
      have c: "same_config s s1" using b by (rule refresh_in_to_out_body_frame(1))
      show ?thesis
      proof (cases r)
        case (Inl e)
        with 1(2) a True b have y: "y = (Inl e, s1)" by simp
        with h Inl have "r \<noteq> Inl RuntimeError" by simp
        with b h have "aligned R s1" by (blast intro: refresh_in_to_out_body_aligned)
        with y c show ?thesis by simp
      next
        case (Inr u1)
        with 1(2) a True b have l: "loop s1 = Some y" by simp
        from b h Inr have al: "aligned R s1" by (blast intro: refresh_in_to_out_body_aligned)
        from c h have "taps_related R (model s1)" by (simp add: same_config_def)
        with 1(1) [OF l] al h have "aligned R (snd y)" "same_config s1 (snd y)" by blast+
        with c show ?thesis by (blast intro: same_config_trans)
      qed
    qed
  qed
qed

lemma refresh_in_to_out_aligned:
  assumes "refresh_in_to_out s = Some (r, s')" and "aligned R s" and "taps_related R (model s)"
    and "r \<noteq> Inl RuntimeError"
  shows "aligned R s'" and "same_config s s'"
proof -
  from assms(2) obtain a_in a_out where a: "activations_in s = Some a_in" "activations_out s = Some a_out"
    and al: "list_all2 R a_in a_out"
    by (auto simp: aligned_def split: option.splits)
  have "aligned R s' \<and> same_config s s'"
  proof (cases "mask_index a_in (map Not (read s))")
    case (Inl e)
    with assms(1,2) a show ?thesis by (auto simp: refresh_in_to_out_def same_config_refl)
  next
    case (Inr kin)
    then have "length (read s) = length a_in" by (auto simp: mask_index_def split: if_splits)
    with al have "length (map Not (read s)) = length a_out" by (simp add: list_all2_lengthD)
    then obtain kout where ko: "mask_index a_out (map Not (read s)) = Inr kout"
      by (simp add: mask_index_def)
    let ?s0 = "s\<lparr>activations_in := Some kin, activations_out := Some kout\<rparr>"
    from assms(1) a Inr ko have l: "refresh_in_to_out_loop ?s0 = Some (r, s')"
      by (simp add: refresh_in_to_out_def)
    have "list_all2 R kin kout" using al Inr ko by (rule mask_index_rel)
    then have "aligned R ?s0" by (simp add: aligned_def)
    moreover have "taps_related R (model ?s0)" using assms(3) by simp
    ultimately have "aligned R s'" "same_config ?s0 s'"
      using refresh_in_to_out_loop_aligned [OF l, of R] assms(4) by simp_all
    then show ?thesis by (simp add: same_config_def)
  qed
  then show "aligned R s'" and "same_config s s'" by simp_all
qed

lemma next_batch_aligned:
  assumes "next_batch rp s = Some (r, s')" and "aligned R s" and "taps_related R (model s)"
    and "\<not> (io s = ''in'' \<or> io s = ''out'')" and "r \<noteq> Inl RuntimeError"
  shows "aligned R s'" and "io s' = io s" and "model s' = model s"
proof -
  have "aligned R s' \<and> io s' = io s \<and> model s' = model s"
  proof (cases "below_threshold s")
    case (Inl e)
    with assms(1,2) show ?thesis by (simp add: next_batch_def)
  next
    case low: (Inr low)
    show ?thesis
    proof (cases low)
      case False
      with assms(1) low have "serve rp s = (r, s')" by (simp add: next_batch_def)
      from serve_aligned [OF this assms(2)] show ?thesis by simp
    next
      case True
      with assms(1,4) low obtain r1 s1 where rf: "refresh_in_to_out s = Some (r1, s1)"
        by (auto simp: next_batch_def refresh_def split: option.splits)
      show ?thesis
      proof (cases r1)
        case (Inl e)
        with assms(1,4) True low rf have r: "r = Inl e" "s' = s1"
          by (auto simp: next_batch_def refresh_def)
        with assms(5) Inl have "r1 \<noteq> Inl RuntimeError" by simp
        from refresh_in_to_out_aligned [OF rf assms(2,3) this] r show ?thesis
          by (simp add: same_config_def)
      next
        case (Inr u)
        then have "r1 \<noteq> Inl RuntimeError" by simp
        from refresh_in_to_out_aligned [OF rf assms(2,3) this]
        have s1: "aligned R s1" "same_config s s1" .
        from assms(1,4) True low rf Inr have "serve rp s1 = (r, s')"
          by (auto simp: next_batch_def refresh_def)
        from serve_aligned [OF this s1(1)] s1(2) show ?thesis by (simp add: same_config_def)
      qed
    qed
  qed
  then show "aligned R s'" and "io s' = io s" and "model s' = model s" by simp_all
qed

lemma reachable_aligned:
  assumes "reachable s0 s" and "aligned R s0" and "taps_related R (model s0)"
    and "io s0 = ''in_to_out''"
  shows "aligned R s \<and> model s = model s0 \<and> io s = ''in_to_out''"
  using assms
proof (induction rule: reachable.induct)
  case reach_init
  then show ?case by simp
next
  case (reach_next s rp r s')
  then have h: "aligned R s" "taps_related R (model s)" "\<not> (io s = ''in'' \<or> io s = ''out'')"
    by simp_all
  from next_batch_aligned [OF reach_next.hyps(2) h reach_next.hyps(3)] reach_next
  show ?case by simp
next
  case (reach_refresh s r s')
  then have h: "aligned R s" "taps_related R (model s)" and io: "io s = ''in_to_out''"
    by simp_all
  from reach_refresh.hyps(2) io have "refresh_in_to_out s = Some (r, s')" by (simp add: refresh_def)
  from refresh_in_to_out_aligned [OF this h reach_refresh.hyps(3)] reach_refresh io
  show ?case by (simp add: same_config_def)
qed

lemma init_in_to_out:
  assumes "ActivationBuffer_init dat mdl sub in_feats out_feats ''in_to_out'' n c ib ob = Inr s0"
  shows "activations_in s0 = Some []" "activations_out s0 = Some []" "model s0 = mdl"
    "io s0 = ''in_to_out''" "read s0 = []"
  using assms by (auto simp: ActivationBuffer_init_def t_empty_def split: option.splits if_splits)

subsection \<open>Resetting the flags and extending them\<close>

lemma storage_compact_flags:
  "snd (storage_compact vs flags) = replicate (length (fst (storage_compact vs flags))) False"
proof -
  have "map snd (filter (\<lambda>(v, f). \<not> f) xs) = replicate (length (filter (\<lambda>(v, f). \<not> f) xs)) False"
    for xs :: "('a \<times> bool) list"
    by (induction xs) auto
  then show ?thesis by (simp add: storage_compact_def)
qed

lemma storage_compact_rows:
  "fst (storage_compact vs flags) = map fst (filter snd (zip vs (map Not flags)))"
proof -
  have "map fst (filter (\<lambda>(v, f). \<not> f) (zip vs flags)) = map fst (filter snd (zip vs (map Not flags)))"
  proof (induction vs arbitrary: flags)
    case Nil
    then show ?case by simp
  next
    case (Cons v vs)
    then show ?case by (cases flags) auto
  qed
  then show ?thesis by (simp add: storage_compact_def)
qed

lemma mask_index_storage_compact:
  "length flags = length vs \<Longrightarrow>
   mask_index vs (map Not flags) = Inr (fst (storage_compact vs flags))"
  by (simp add: mask_index_def storage_compact_rows)

text \<open>With all flags false, extending the flags and resetting them is the same.\<close>

lemma extend_std_body_all_False:
  assumes "activations s = Some a" and "read s = replicate (length a) False"
  shows "extend_std_body s = refresh_std_body s"
  using assms
  by (auto simp: extend_std_body_def cat_def refresh_std_body_def cat_def storage_append_def text_batch_def Let_def
      replicate_add [symmetric] split: sum.splits option.splits)

lemma refresh_std_body_all_False:
  assumes "refresh_std_body s = (Inr u, s1)"
  shows "\<exists>a1. activations s1 = Some a1 \<and> read s1 = replicate (length a1) False"
  using refresh_std_body_Inr_fields [OF assms] by auto

lemma appends_std_all_False:
  assumes "activations s = Some a" and "read s = replicate (length a) False"
  shows "appends k extend_std_body s = appends k refresh_std_body s"
  using assms
proof (induction k arbitrary: s a)
  case 0
  then show ?case by simp
next
  case (Suc k)
  have e: "extend_std_body s = refresh_std_body s"
    using Suc.prems by (rule extend_std_body_all_False)
  obtain r s1 where b: "refresh_std_body s = (r, s1)" by (cases "refresh_std_body s")
  show ?case
  proof (cases r)
    case (Inl e')
    with e b show ?thesis by simp
  next
    case (Inr u)
    from refresh_std_body_all_False [OF b [unfolded Inr]] obtain a1 where
      "activations s1 = Some a1" "read s1 = replicate (length a1) False" by blast
    then have "appends k extend_std_body s1 = appends k refresh_std_body s1" by (rule Suc.IH)
    with e b Inr show ?thesis by simp
  qed
qed

text \<open>The first append after the compaction.\<close>

lemma first_append_std:
  assumes "activations s = Some kept"
  shows "(refresh_std_body s = (Inr (), s1)) =
         (extend_std_body (s\<lparr>read := replicate (length kept) False\<rparr>) = (Inr (), s1))"
  using assms
  by (auto simp: extend_std_body_def cat_def refresh_std_body_def cat_def storage_append_def text_batch_def Let_def
      replicate_add [symmetric] split: sum.splits option.splits)

lemma appends_std_after_compaction:
  assumes "activations s = Some kept" and "0 < k"
  shows "(appends k refresh_std_body s = (Inr (), s')) =
         (appends k extend_std_body (s\<lparr>read := replicate (length kept) False\<rparr>) = (Inr (), s'))"
proof -
  from assms(2) obtain j where k: "k = Suc j" by (cases k) auto
  let ?t = "s\<lparr>read := replicate (length kept) False\<rparr>"
  have t: "activations ?t = Some kept" "read ?t = replicate (length kept) False"
    using assms(1) by simp_all
  have "appends k extend_std_body ?t = appends k refresh_std_body ?t"
    using t by (rule appends_std_all_False)
  moreover have "(appends k refresh_std_body s = (Inr (), s')) = (appends k refresh_std_body ?t = (Inr (), s'))"
  proof -
    obtain r s1 where b: "refresh_std_body s = (r, s1)" by (cases "refresh_std_body s")
    obtain r' s1' where b': "refresh_std_body ?t = (r', s1')" by (cases "refresh_std_body ?t")
    have e: "extend_std_body ?t = refresh_std_body ?t"
      using t by (rule extend_std_body_all_False)
    show ?thesis
    proof (cases r)
      case (Inr u)
      then have "refresh_std_body s = (Inr (), s1)" using b by simp
      with first_append_std [OF assms(1), of s1] e have "refresh_std_body ?t = (Inr (), s1)" by simp
      with b Inr k show ?thesis by simp
    next
      case (Inl e1)
      have "\<exists>e2. r' = Inl e2"
      proof (cases r')
        case (Inr u')
        then have "refresh_std_body ?t = (Inr (), s1')" using b' by simp
        with first_append_std [OF assms(1), of s1'] e have "refresh_std_body s = (Inr (), s1')" by simp
        with b Inl show ?thesis by simp
      qed simp
      with b b' Inl k show ?thesis by auto
    qed
  qed
  ultimately show ?thesis by simp
qed

text \<open>The same for two taps.\<close>

lemma extend_in_to_out_body_all_False:
  assumes "activations_in s = Some a" and "read s = replicate (length a) False"
  shows "extend_in_to_out_body s = refresh_in_to_out_body s"
  using assms
  by (auto simp: extend_in_to_out_body_def cat_def refresh_in_to_out_body_def cat_def storage_append_def text_batch_def Let_def
      replicate_add [symmetric] split: sum.splits option.splits)

lemma refresh_in_to_out_body_all_False:
  assumes "refresh_in_to_out_body s = (Inr u, s1)"
  shows "\<exists>a1. activations_in s1 = Some a1 \<and> read s1 = replicate (length a1) False"
  using refresh_in_to_out_body_Inr_fields [OF assms] by auto

lemma appends_in_to_out_all_False:
  assumes "activations_in s = Some a" and "read s = replicate (length a) False"
  shows "appends k extend_in_to_out_body s = appends k refresh_in_to_out_body s"
  using assms
proof (induction k arbitrary: s a)
  case 0
  then show ?case by simp
next
  case (Suc k)
  have e: "extend_in_to_out_body s = refresh_in_to_out_body s"
    using Suc.prems by (rule extend_in_to_out_body_all_False)
  obtain r s1 where b: "refresh_in_to_out_body s = (r, s1)" by (cases "refresh_in_to_out_body s")
  show ?case
  proof (cases r)
    case (Inl e')
    with e b show ?thesis by simp
  next
    case (Inr u)
    from refresh_in_to_out_body_all_False [OF b [unfolded Inr]] obtain a1 where
      "activations_in s1 = Some a1" "read s1 = replicate (length a1) False" by blast
    then have "appends k extend_in_to_out_body s1 = appends k refresh_in_to_out_body s1" by (rule Suc.IH)
    with e b Inr show ?thesis by simp
  qed
qed

lemma first_append_in_to_out:
  assumes "activations_in s = Some kept"
  shows "(refresh_in_to_out_body s = (Inr (), s1)) =
         (extend_in_to_out_body (s\<lparr>read := replicate (length kept) False\<rparr>) = (Inr (), s1))"
  using assms
  by (auto simp: extend_in_to_out_body_def cat_def refresh_in_to_out_body_def cat_def storage_append_def text_batch_def Let_def
      replicate_add [symmetric] split: sum.splits option.splits)

lemma appends_in_to_out_after_compaction:
  assumes "activations_in s = Some kept" and "0 < k"
  shows "(appends k refresh_in_to_out_body s = (Inr (), s')) =
         (appends k extend_in_to_out_body (s\<lparr>read := replicate (length kept) False\<rparr>) = (Inr (), s'))"
proof -
  from assms(2) obtain j where k: "k = Suc j" by (cases k) auto
  let ?t = "s\<lparr>read := replicate (length kept) False\<rparr>"
  have t: "activations_in ?t = Some kept" "read ?t = replicate (length kept) False"
    using assms(1) by simp_all
  have "appends k extend_in_to_out_body ?t = appends k refresh_in_to_out_body ?t"
    using t by (rule appends_in_to_out_all_False)
  moreover have "(appends k refresh_in_to_out_body s = (Inr (), s')) = (appends k refresh_in_to_out_body ?t = (Inr (), s'))"
  proof -
    obtain r s1 where b: "refresh_in_to_out_body s = (r, s1)" by (cases "refresh_in_to_out_body s")
    obtain r' s1' where b': "refresh_in_to_out_body ?t = (r', s1')" by (cases "refresh_in_to_out_body ?t")
    have e: "extend_in_to_out_body ?t = refresh_in_to_out_body ?t"
      using t by (rule extend_in_to_out_body_all_False)
    show ?thesis
    proof (cases r)
      case (Inr u)
      then have "refresh_in_to_out_body s = (Inr (), s1)" using b by simp
      with first_append_in_to_out [OF assms(1), of s1] e have "refresh_in_to_out_body ?t = (Inr (), s1)" by simp
      with b Inr k show ?thesis by simp
    next
      case (Inl e1)
      have "\<exists>e2. r' = Inl e2"
      proof (cases r')
        case (Inr u')
        then have "refresh_in_to_out_body ?t = (Inr (), s1')" using b' by simp
        with first_append_in_to_out [OF assms(1), of s1'] e have "refresh_in_to_out_body s = (Inr (), s1')" by simp
        with b Inl show ?thesis by simp
      qed simp
      with b b' Inl k show ?thesis by auto
    qed
  qed
  ultimately show ?thesis by simp
qed

lemma refresh_std_loop_appends:
  assumes "refresh_std_loop s = Some y"
  shows "\<forall>u s'. y = (Inr u, s') \<longrightarrow> (\<exists>k. appends k refresh_std_body s = (Inr (), s'))"
  using assms
proof (induction rule: refresh_std_loop.raw_induct [rotated 1, consumes 1])
  case (1 loop s y)
  show ?case
  proof (intro allI impI)
    fix u s' assume y: "y = (Inr u, s')"
    show "\<exists>k. appends k refresh_std_body s = (Inr (), s')"
    proof (cases "activations s")
      case None
      with 1(2) y show ?thesis by simp
    next
      case (Some a)
      show ?thesis
      proof (cases "int (length a) < n_ctxs s * ctx_len s")
        case False
        with 1(2) Some y have "appends 0 refresh_std_body s = (Inr (), s')" by simp
        then show ?thesis ..
      next
        case True
        obtain r s1 where b: "refresh_std_body s = (r, s1)" by (cases "refresh_std_body s")
        show ?thesis
        proof (cases r)
          case (Inl e)
          with 1(2) Some True b y show ?thesis by simp
        next
          case (Inr u1)
          with 1(2) Some True b have "loop s1 = Some y" by simp
          from 1(1) [OF this] y obtain k where "appends k refresh_std_body s1 = (Inr (), s')" by blast
          with b Inr have "appends (Suc k) refresh_std_body s = (Inr (), s')" by simp
          then show ?thesis ..
        qed
      qed
    qed
  qed
qed

subsection \<open>Running the loop on concrete inputs\<close>

lemma refresh_std_loop_unfold:
  "activations s = Some a \<Longrightarrow> int (length a) < n_ctxs s * ctx_len s \<Longrightarrow>
   refresh_std_loop s =
     (case refresh_std_body s of
        (Inl e, s1) \<Rightarrow> Some (Inl e, s1)
      | (Inr u, s1) \<Rightarrow> refresh_std_loop s1)"
  by (subst refresh_std_loop.simps) simp

lemma upt_1: "[0..<1] = [0]"
  by simp

lemma upt_2: "[0..<2] = [0, 1]"
  by code_simp

lemma upt_8: "[0..<8] = [0, 1, 2, 3, 4, 5, 6, 7]"
  by code_simp

lemmas eval_defs = ActivationBuffer_init_def t_empty_def next_batch_def below_threshold_def tensor_lt_def
  unread_count_def refresh_def refresh_std_def
  mask_index_def refresh_std_loop_unfold refresh_std_loop_exit refresh_std_body_def cat_def text_batch_def pad_model_def
  Let_def mask_index2_def serve_def select_idxs_def nonzero_def squeeze_def index_rows_def index_put_True_def
  slice_to_def

lemma tiny_first_call:
  "\<exists>s0. tiny = Inr s0 \<and> next_batch (\<lambda>n. [0..<n]) s0 = Some (Inr (Single [101]), tiny_left)"
  by (simp add: tiny_def tiny_left_def eval_defs upt_2 upt_1)

lemma upt_6: "[0..<6] = [0, 1, 2, 3, 4, 5]"
  by code_simp

lemma upt_4: "[0..<4] = [0, 1, 2, 3]"
  by code_simp

lemmas upt_facts = upt_1 upt_2 upt_4 upt_6 upt_8

lemma scenario_refresh:
  "\<exists>s0. scenario = Inr s0 \<and>
     refresh s0 = Some (Inr (), scenario_with [101, 102, 103, 104, 105, 106, 107, 108]
        [False, False, False, False, False, False, False, False]
        [[9, 10, 11, 12], [13, 14, 15, 16]])"
  by (simp add: scenario_def scenario_with_def eval_defs upt_facts)

lemma scenario_first_call:
  "\<exists>s0. scenario = Inr s0 \<and>
     next_batch (\<lambda>n. [0..<n]) s0 = Some (Inr (Single [101, 102]),
       scenario_with [101, 102, 103, 104, 105, 106, 107, 108]
        [True, True, False, False, False, False, False, False] [[9, 10, 11, 12], [13, 14, 15, 16]])"
  by (simp add: scenario_def scenario_with_def eval_defs upt_facts)

lemma scenario_second_call:
  "next_batch (\<lambda>n. [0..<n]) (scenario_with [101, 102, 103, 104, 105, 106, 107, 108]
        [True, True, False, False, False, False, False, False] [[9, 10, 11, 12], [13, 14, 15, 16]])
   = Some (Inr (Single [103, 104]),
       scenario_with [101, 102, 103, 104, 105, 106, 107, 108]
        [True, True, True, True, False, False, False, False] [[9, 10, 11, 12], [13, 14, 15, 16]])"
  by (simp add: scenario_with_def eval_defs upt_facts)

lemma scenario_third_call:
  "next_batch (\<lambda>n. [0..<n]) (scenario_with [101, 102, 103, 104, 105, 106, 107, 108]
        [True, True, True, True, False, False, False, False] [[9, 10, 11, 12], [13, 14, 15, 16]])
   = Some (Inr (Single [105, 106]),
       scenario_with [101, 102, 103, 104, 105, 106, 107, 108]
        [True, True, True, True, True, True, False, False] [[9, 10, 11, 12], [13, 14, 15, 16]])"
  by (simp add: scenario_with_def eval_defs upt_facts)

lemma scenario_fourth_call:
  "next_batch (\<lambda>n. [0..<n]) (scenario_with [101, 102, 103, 104, 105, 106, 107, 108]
        [True, True, True, True, True, True, False, False] [[9, 10, 11, 12], [13, 14, 15, 16]])
   = Some (Inr (Single [107, 108]),
       scenario_with [101, 102, 103, 104, 105, 106, 107, 108]
        [True, True, True, True, True, True, True, True] [[9, 10, 11, 12], [13, 14, 15, 16]])"
  by (simp add: scenario_with_def eval_defs upt_facts)

lemma scenario_manual_refresh:
  "refresh (scenario_with [101, 102, 103, 104, 105, 106, 107, 108]
        [True, True, False, False, False, False, False, False] [[9, 10, 11, 12], [13, 14, 15, 16]])
   = Some (Inr (), scenario_with [103, 104, 105, 106, 107, 108]
        [True, True, False, False, False, False, False, False] [[9, 10, 11, 12], [13, 14, 15, 16]])"
  by (simp add: scenario_with_def eval_defs upt_facts)

lemma tiny_exhausted:
  "refresh tiny_left = Some (Inl StopIteration, tiny_left\<lparr>activations := Some [102], data := []\<rparr>)"
  by (simp add: tiny_left_def eval_defs upt_facts)

lemma short_first_call:
  "\<exists>s0. short_source = Inr s0 \<and>
     next_batch (\<lambda>n. [0..<n]) s0 = Some (Inr (Single [101, 102]),
       scenario_with [101, 102, 103, 104, 105, 106, 107, 108]
        [True, True, False, False, False, False, False, False] [])"
  by (simp add: short_source_def scenario_with_def eval_defs upt_facts)

lemma short_refresh:
  "refresh (scenario_with [101, 102, 103, 104, 105, 106, 107, 108]
        [True, True, False, False, False, False, False, False] [])
   = Some (Inr (), scenario_with [103, 104, 105, 106, 107, 108]
        [True, True, False, False, False, False, False, False] [])"
  by (simp add: scenario_with_def eval_defs upt_facts)

lemma scenario_init:
  "scenario = Inr (scenario_with [] [] [[1, 2, 3, 4], [5, 6, 7, 8], [9, 10, 11, 12], [13, 14, 15, 16]])"
  by (simp add: scenario_def scenario_with_def ActivationBuffer_init_def t_empty_def)

lemma scenario_refresh':
  "refresh (scenario_with [] [] [[1, 2, 3, 4], [5, 6, 7, 8], [9, 10, 11, 12], [13, 14, 15, 16]]) =
     Some (Inr (), scenario_with [101, 102, 103, 104, 105, 106, 107, 108]
        [False, False, False, False, False, False, False, False] [[9, 10, 11, 12], [13, 14, 15, 16]])"
  using scenario_refresh by (simp add: scenario_init)

lemma mask_index_Not_synced:
  "length rd = length a \<Longrightarrow>
   mask_index a (map Not rd) = Inr (map fst (filter snd (zip a (map Not rd))))"
  by (simp add: mask_index_def)

lemmas eval_dual_defs = ActivationBuffer_init_def t_empty_def next_batch_def below_threshold_def tensor_lt_def
  unread_count_def refresh_def
  refresh_in_to_out_def mask_index_def refresh_in_to_out_loop_unfold refresh_in_to_out_loop_exit
  refresh_in_to_out_body_def cat_def text_batch_def pad_model_def
  Let_def mask_index2_def serve_def select_idxs_def nonzero_def squeeze_def index_rows_def
  index_put_True_def slice_to_def

lemma upt_5: "[0..<5] = [0, 1, 2, 3, 4]"
  by code_simp

lemma upt_3: "[0..<3] = [0, 1, 2]"
  by code_simp

lemma dual_init: "dual = Inr (dual_with [] [] [] [[1, 2], [3, 4, 5]])"
  by (simp add: dual_def dual_with_def ActivationBuffer_init_def t_empty_def)

lemma dual_first_call:
  "next_batch (\<lambda>n. [0..<n]) (dual_with [] [] [] [[1, 2], [3, 4, 5]]) =
     Some (Inr (Pair [1, 2] [101, 102]),
       dual_with [1, 2, 3, 4, 5] [101, 102, 103, 104, 105] [True, True, False, False, False] [])"
  by (simp add: dual_with_def eval_dual_defs upt_facts upt_5 upt_3)

lemma dual_refresh_exhausted:
  "refresh (dual_with [1, 2, 3, 4, 5] [101, 102, 103, 104, 105] [True, True, False, False, False] []) =
     Some (Inl StopIteration,
       dual_with [3, 4, 5] [103, 104, 105] [True, True, False, False, False] [])"
  by (simp add: dual_with_def eval_dual_defs upt_facts upt_5 upt_3)

lemma pad_model_taps_related: "taps_related (\<lambda>x y. y = x + 100) pad_model"
  unfolding taps_related_def
proof (intro allI impI)
  fix texts :: "nat list list" and m :: int and tr :: "nat traced"
    and sh_in h_in sh_out h_out b l
  assume a: "pad_model texts m = Inr tr \<and> unwrap (submodule_input tr) = Inr (sh_in, h_in) \<and>
        unwrap (submodule_output tr) = Inr (sh_out, h_out) \<and>
        b < length (attention_mask tr) \<and> l < length (attention_mask tr ! b) \<and>
        attention_mask tr ! b ! l \<noteq> 0"
  define toks where "toks = map (take (nat m)) texts"
  define L where "L = fold max (map length toks) 0"
  from a have am: "attention_mask tr = map (\<lambda>t. replicate (length t) 1 @ replicate (L - length t) 0) toks"
    and hi: "h_in = map (\<lambda>t. t @ replicate (L - length t) 0) toks"
    and ho: "h_out = map (\<lambda>t. map (\<lambda>x. x + 100) t @ replicate (L - length t) 0) toks"
    by (auto simp: pad_model_def Let_def toks_def L_def)
  from a am have b: "b < length toks" by simp
  with a am have "l < length (toks ! b)"
    by (auto simp: nth_append split: if_splits)
  with b hi ho show "h_out ! b ! l = h_in ! b ! l + 100"
    by (simp add: nth_append)
qed

lemma scenario_one_append:
  "appends 1 refresh_std_body
     (scenario_with [103, 104, 105, 106, 107, 108]
        [True, True, False, False, False, False, False, False] [[9, 10, 11, 12], [13, 14, 15, 16]])
   = (Inr (), scenario_with [103, 104, 105, 106, 107, 108, 109, 110, 111, 112, 113, 114, 115, 116]
        [False, False, False, False, False, False, False, False, False, False, False, False, False, False] [])"
  by (simp add: scenario_with_def refresh_std_body_def cat_def text_batch_def pad_model_def Let_def
      mask_index2_def)

lemma dual_one_append:
  "appends 1 refresh_in_to_out_body
     (dual_with [2, 3] [102, 103] [True, False, False] [[7, 8], [9]])
   = (Inr (), dual_with [2, 3, 7, 8, 9] [102, 103, 107, 108, 109]
        [False, False, False, False, False] [])"
  by (simp add: dual_with_def refresh_in_to_out_body_def cat_def text_batch_def pad_model_def Let_def
      mask_index2_def)

subsection \<open>A constructed buffer\<close>

lemma init_synced:
  assumes "ActivationBuffer_init dat mdl sub in_feats out_feats io' n c ib ob = Inr s"
    and "io' = ''in'' \<or> io' = ''out'' \<or> io' = ''in_to_out''"
  shows "read s = []" and "synced s" and "io s = io'"
proof -
  from assms(2) have "read s = [] \<and> synced s \<and> io s = io'"
  proof (elim disjE)
    assume "io' = ''in''"
    with assms(1) show ?thesis
      by (auto simp: ActivationBuffer_init_def t_empty_def synced_def split: option.splits if_splits)
  next
    assume "io' = ''out''"
    with assms(1) show ?thesis
      by (auto simp: ActivationBuffer_init_def t_empty_def synced_def split: option.splits if_splits)
  next
    assume "io' = ''in_to_out''"
    with assms(1) show ?thesis
      by (auto simp: ActivationBuffer_init_def t_empty_def synced_def split: option.splits if_splits)
  qed
  then show "read s = []" and "synced s" and "io s = io'" by simp_all
qed

lemma init_with_width_succeeds:
  assumes "io' = ''out'' \<or> in_feats \<noteq> None \<or> in_features sub \<noteq> None"
    and "io' = ''in'' \<or> out_feats \<noteq> None \<or> out_features sub \<noteq> None"
  shows "ActivationBuffer_init dat mdl sub in_feats out_feats io' n c ib ob \<noteq> Inl ValueError"
  using assms by (auto simp: ActivationBuffer_init_def t_empty_def Let_def split: option.splits)

subsection \<open>Sequences of returning calls keep the flags in step\<close>

lemma index_put_True_map:
  assumes "index_put_True bs js = Inr bs'"
  shows "bs' = map (\<lambda>i. bs ! i \<or> i \<in> set js) [0..<length bs]"
proof (rule nth_equalityI)
  show "length bs' = length (map (\<lambda>i. bs ! i \<or> i \<in> set js) [0..<length bs])"
    using index_put_True_Inr(1) [OF assms] by simp
next
  fix i assume "i < length bs'"
  then have "i < length bs" using index_put_True_Inr(1) [OF assms] by simp
  then show "bs' ! i = map (\<lambda>i. bs ! i \<or> i \<in> set js) [0..<length bs] ! i"
    using index_put_True_Inr(2) [OF assms] by simp
qed

lemma mask_index_unread_rows:
  "mask_index a (map Not rd) = Inr kept \<Longrightarrow> kept = unread_rows a rd \<and> length rd = length a"
  by (auto simp: mask_index_def unread_rows_def split: if_splits)

lemma synced_read_update:
  "length rd = length (read s) \<Longrightarrow> synced (s\<lparr>read := rd\<rparr>) = synced s"
  by (simp add: synced_def split: option.splits)

lemma serve_synced:
  assumes "serve rp s = (r, s')" and "synced s"
  shows "synced s'"
proof -
  from serve_state [OF assms(1)] have e: "s' = s\<lparr>read := read s'\<rparr>" and l: "length (read s') = length (read s)" .
  from l assms(2) have "synced (s\<lparr>read := read s'\<rparr>)" by (simp add: synced_read_update)
  with e show ?thesis by simp
qed

lemma next_batch_synced:
  assumes "next_batch rp s = Some (Inr b, s')" and "synced s"
  shows "synced s'"
proof -
  from next_batch_Inr [OF assms(1)] obtain s1 where
    r: "if below_threshold s = Inr True
        then refresh s = Some (Inr (), s1) else s1 = s"
    and sv: "serve rp s1 = (Inr b, s')"
    by blast
  have "synced s1"
  proof (cases "below_threshold s = Inr True")
    case False
    with r assms(2) show ?thesis by simp
  next
    case True
    with r have rf: "refresh s = Some (Inr (), s1)" by simp
    from True have "int (unread_count (read s)) < n_ctxs s * ctx_len s" by (rule threshold_le_target)
    from refresh_low_Inr(2) [OF rf this] show ?thesis .
  qed
  with sv show ?thesis by (rule serve_synced)
qed

lemma next_batches_synced:
  "next_batches rps s0 = Some s \<Longrightarrow> synced s0 \<Longrightarrow> synced s"
proof (induction rps arbitrary: s0)
  case Nil
  then show ?case by simp
next
  case (Cons rp rps)
  from Cons.prems(1) obtain b s1 where c: "next_batch rp s0 = Some (Inr b, s1)"
    and n: "next_batches rps s1 = Some s"
    by (auto split: option.splits sum.splits prod.splits)
  from next_batch_synced [OF c Cons.prems(2)] n show ?case by (rule Cons.IH [rotated])
qed

lemma next_batch_no_buffers:
  assumes "\<not> (io s = ''in'' \<or> io s = ''out'')" and "activations_in s = None"
  shows "next_batch rp s \<noteq> Some (Inr b, s')"
proof
  assume nb: "next_batch rp s = Some (Inr b, s')"
  from next_batch_Inr [OF nb] obtain s1 where
    r: "if below_threshold s = Inr True
        then refresh s = Some (Inr (), s1) else s1 = s"
    and sv: "serve rp s1 = (Inr b, s')"
    by blast
  show False
  proof (cases "below_threshold s = Inr True")
    case True
    with r assms show False by (simp add: refresh_def refresh_in_to_out_def)
  next
    case False
    with r have "s1 = s" by simp
    with sv assms(1) obtain a_in where "activations_in s = Some a_in"
      by (auto elim: serve_Inr_in_to_out)
    with assms(2) show False by simp
  qed
qed

lemma init_other_io:
  assumes "ActivationBuffer_init dat mdl sub in_feats out_feats io' n c ib ob = Inr s0"
    and "\<not> (io' = ''in'' \<or> io' = ''out'' \<or> io' = ''in_to_out'')"
  shows "\<not> (io s0 = ''in'' \<or> io s0 = ''out'')" and "activations_in s0 = None"
  using assms by (auto simp: ActivationBuffer_init_def t_empty_def)

lemma next_batches_init_synced:
  assumes "ActivationBuffer_init dat mdl sub in_feats out_feats io' n c ib ob = Inr s0"
    and "next_batches rps s0 = Some s" and "next_batch rp s = Some (Inr b, s')"
  shows "synced s"
proof (cases "io' = ''in'' \<or> io' = ''out'' \<or> io' = ''in_to_out''")
  case True
  from init_synced(2) [OF assms(1) True] show ?thesis
    using assms(2) by (rule next_batches_synced [rotated])
next
  case False
  note nb = init_other_io [OF assms(1) False]
  have "s = s0"
  proof (cases rps)
    case Nil
    with assms(2) show ?thesis by simp
  next
    case (Cons rp1 rps1)
    with assms(2) obtain b1 s1 where "next_batch rp1 s0 = Some (Inr b1, s1)"
      by (auto split: option.splits sum.splits prod.splits)
    with next_batch_no_buffers [OF nb] show ?thesis by blast
  qed
  with assms(3) next_batch_no_buffers [OF nb] show ?thesis by blast
qed

section \<open>Construction without a feature width\<close>

text \<open>
  Claim C9. When the width of an active tap is neither supplied nor readable from the
  extraction point (\<open>in_feats\<close> for \<open>io = 'in'\<close> and \<open>'in_to_out'\<close>, \<open>out_feats\<close> for
  \<open>io = 'out'\<close> and \<open>'in_to_out'\<close>), construction raises \<open>ValueError\<close>: no buffer is made, so
  no width is made up.
\<close>

theorem init_without_width_raises:
  assumes "(io' = ''in'' \<or> io' = ''in_to_out'') \<and> in_feats = None \<and> in_features sub = None \<or>
           (io' = ''out'' \<or> io' = ''in_to_out'') \<and> out_feats = None \<and> out_features sub = None"
  shows "ActivationBuffer_init dat mdl sub in_feats out_feats io' n c ib ob = Inl ValueError"
proof -
  have "io' = ''in'' \<or> io' = ''out'' \<or> io' = ''in_to_out''" using assms by blast
  then show ?thesis
  proof (elim disjE)
    assume "io' = ''in''"
    with assms show ?thesis by (simp add: ActivationBuffer_init_def t_empty_def)
  next
    assume "io' = ''out''"
    with assms show ?thesis by (simp add: ActivationBuffer_init_def t_empty_def)
  next
    assume "io' = ''in_to_out''"
    with assms show ?thesis by (auto simp: ActivationBuffer_init_def t_empty_def split: option.split)
  qed
qed

theorem init_without_width_raises_witness:
  "ActivationBuffer_init [[1, 2]] pad_model \<lparr>in_features = None, out_features = Some 8\<rparr>
      None None ''in'' 1 2 1 1 = Inl ValueError \<and>
   ActivationBuffer_init [[1, 2]] pad_model \<lparr>in_features = Some 8, out_features = None\<rparr>
      None None ''out'' 1 2 1 1 = Inl ValueError \<and>
   ActivationBuffer_init [[1, 2]] pad_model \<lparr>in_features = None, out_features = None\<rparr>
      (Some 8) None ''in_to_out'' 1 2 1 1 = Inl ValueError \<and>
   ActivationBuffer_init [[1, 2]] pad_model \<lparr>in_features = None, out_features = Some 8\<rparr>
      None None ''in_to_out'' 1 2 1 1 = Inl ValueError"
proof -
  have a: "ActivationBuffer_init [[1, 2]] pad_model \<lparr>in_features = None, out_features = Some 8\<rparr>
      None None ''in'' 1 2 1 1 = Inl ValueError"
    by (rule init_without_width_raises) simp
  have b: "ActivationBuffer_init [[1, 2]] pad_model \<lparr>in_features = Some 8, out_features = None\<rparr>
      None None ''out'' 1 2 1 1 = Inl ValueError"
    by (rule init_without_width_raises) simp
  have c: "ActivationBuffer_init [[1, 2]] pad_model \<lparr>in_features = None, out_features = None\<rparr>
      (Some 8) None ''in_to_out'' 1 2 1 1 = Inl ValueError"
    by (rule init_without_width_raises) simp
  have d: "ActivationBuffer_init [[1, 2]] pad_model \<lparr>in_features = None, out_features = Some 8\<rparr>
      None None ''in_to_out'' 1 2 1 1 = Inl ValueError"
    by (rule init_without_width_raises) simp
  from a b c d show ?thesis by simp
qed

section \<open>A single unread row\<close>

text \<open>
  Claim C10. Let exactly one row be unread. The comparison of line 75 is false, so that
  \<open>__next__\<close> does not refresh, for every threshold \<open>n_ctxs * ctx_len // 2\<close> from \<open>-2^63\<close> to
  1. Whenever it is false, \<open>nonzero\<close> yields one index, \<open>squeeze\<close> makes it 0-dimensional,
  \<open>len\<close> raises \<open>TypeError\<close>, and the call raises instead of returning the row. The buffer
  is left as it was.
\<close>

theorem next_batch_one_unread_raises:
  assumes "unread_count (read s) = 1"
  shows "(- (2 ^ 63) \<le> n_ctxs s * ctx_len s div 2 \<and> n_ctxs s * ctx_len s div 2 \<le> 1 \<longrightarrow>
            below_threshold s = Inr False) \<and>
         (below_threshold s = Inr False \<longrightarrow>
            (\<exists>i. nonzero (map Not (read s)) = [i] \<and> squeeze [i] = Dim0 i \<and>
               len (Dim0 i) = Inl TypeError \<and> next_batch rp s = Some (Inl TypeError, s)))"
proof (intro conjI impI)
  assume "- (2 ^ 63) \<le> n_ctxs s * ctx_len s div 2 \<and> n_ctxs s * ctx_len s div 2 \<le> 1"
  with assms show "below_threshold s = Inr False"
    by (simp add: below_threshold_def tensor_lt_def)
next
  assume c: "below_threshold s = Inr False"
  from assms have "length (nonzero (map Not (read s))) = 1"
    by (simp add: length_nonzero_Not)
  then obtain i where "nonzero (map Not (read s)) = [i]" "squeeze [i] = Dim0 i"
    using squeeze_one by fastforce
  moreover have "next_batch rp s = Some (Inl TypeError, s)"
    using assms c by (simp add: next_batch_def serve_one)
  ultimately show "\<exists>i. nonzero (map Not (read s)) = [i] \<and> squeeze [i] = Dim0 i \<and>
      len (Dim0 i) = Inl TypeError \<and> next_batch rp s = Some (Inl TypeError, s)"
    by simp
qed

theorem next_batch_one_unread_raises_witness:
  "unread_count (read tiny_left) = 1 \<and> n_ctxs tiny_left * ctx_len tiny_left div 2 \<le> 1 \<and>
   - (2 ^ 63) \<le> n_ctxs tiny_left * ctx_len tiny_left div 2 \<and>
   below_threshold tiny_left = Inr False \<and>
   nonzero (map Not (read tiny_left)) = [1] \<and> squeeze [1] = Dim0 1 \<and>
   next_batch (\<lambda>n. rev [0..<n]) tiny_left = Some (Inl TypeError, tiny_left)"
proof -
  have h1: "unread_count (read tiny_left) = 1"
    by (simp add: tiny_left_def unread_count_def)
  have h2: "n_ctxs tiny_left * ctx_len tiny_left div 2 \<le> 1"
    "- (2 ^ 63) \<le> n_ctxs tiny_left * ctx_len tiny_left div 2"
    by (simp_all add: tiny_left_def)
  have nz: "nonzero (map Not (read tiny_left)) = [1]"
    by (simp add: tiny_left_def nonzero_def upt_rec)
  from next_batch_one_unread_raises [OF h1, of "\<lambda>n. rev [0..<n]"] h1 h2 nz
  show ?thesis by auto
qed

text \<open>
  Claim C1, at a buffer where it fails. The small buffer (\<open>n_ctxs = 1\<close>, \<open>ctx_len = 2\<close>,
  batches of one) is filled with two rows by its first call, which serves row 0. The second
  call finds one unread row, which is not below the threshold 1, so it does not refresh;
  it should return that row (\<open>min(out_batch_size, 1) = 1\<close> index) and raises \<open>TypeError\<close>.
\<close>

theorem last_vector_not_served:
  "\<exists>s0. tiny = Inr s0 \<and>
     next_batch (\<lambda>n. [0..<n]) s0 = Some (Inr (Single [101]), tiny_left) \<and>
     activations tiny_left = Some [101, 102] \<and> read tiny_left = [True, False] \<and>
     n_ctxs tiny_left * ctx_len tiny_left div 2 = 1 \<and>
     next_batch (\<lambda>n. [0..<n]) tiny_left = Some (Inl TypeError, tiny_left)"
proof -
  have "next_batch (\<lambda>n. [0..<n]) tiny_left = Some (Inl TypeError, tiny_left)"
    by (simp add: next_batch_def below_threshold_def tensor_lt_def serve_one tiny_left_def
        unread_count_def)
  moreover have "activations tiny_left = Some [101, 102] \<and> read tiny_left = [True, False] \<and>
     n_ctxs tiny_left * ctx_len tiny_left div 2 = 1"
    by (simp add: tiny_left_def)
  ultimately show ?thesis using tiny_first_call by blast
qed

section \<open>Occupancy after a call\<close>

text \<open>
  Claim C5, as the code has it. \<open>__next__\<close> compares the unread count with the threshold
  \<open>n_ctxs * ctx_len // 2\<close> before it draws the batch, and refreshes then; it does not look
  again after drawing. The comparison is made on an int64 tensor, and for a threshold of
  \<open>2^63\<close> or more it is false or raises. So for a threshold below \<open>2^63\<close> and every call that
  returns a batch, the unread count left plus the number of rows just returned is at least
  the threshold. The configuration is unchanged by the call.
\<close>

theorem threshold_met_before_serving:
  assumes "next_batch rp s = Some (Inr b, s')" and "n_ctxs s * ctx_len s div 2 < 2 ^ 63"
  shows "n_ctxs s * ctx_len s div 2 \<le> int (unread_count (read s')) + int (batch_len b) \<and>
         n_ctxs s' = n_ctxs s \<and> ctx_len s' = ctx_len s"
proof -
  from next_batch_Inr [OF assms(1)] obtain s1 where
    r: "if below_threshold s = Inr True
        then refresh s = Some (Inr (), s1) else s1 = s"
    and sv: "serve rp s1 = (Inr b, s')"
    by blast
  from next_batch_Inr_compared [OF assms(1)] obtain low where c: "below_threshold s = Inr low" ..
  have s1: "n_ctxs s * ctx_len s div 2 \<le> int (unread_count (read s1)) \<and> same_config s s1"
  proof (cases "below_threshold s = Inr True")
    case False
    with c have "tensor_lt (int (unread_count (read s))) (n_ctxs s * ctx_len s div 2) = Inr False"
      by (simp add: below_threshold_def)
    from tensor_lt_False [OF this assms(2)] False r show ?thesis
      by (simp add: same_config_refl)
  next
    case True
    with r have rf: "refresh s = Some (Inr (), s1)" by simp
    from True have low: "int (unread_count (read s)) < n_ctxs s * ctx_len s"
      and le: "n_ctxs s * ctx_len s div 2 \<le> n_ctxs s * ctx_len s"
      by (rule threshold_le_target)+
    from refresh_low_Inr [OF rf low] have "same_config s s1"
      "read s1 = replicate (length (read s1)) False" "n_ctxs s * ctx_len s \<le> int (length (read s1))"
      by simp_all
    moreover from this(2) have "unread_count (read s1) = length (read s1)"
      by (metis unread_count_replicate_False)
    ultimately show ?thesis using le by simp
  qed
  from sv obtain idxs rd' where p: "index_put_True (read s1) idxs = Inr rd'"
    and s': "s' = s1\<lparr>read := rd'\<rparr>" and bl: "batch_len b = length idxs"
    by (rule serve_Inr)
  from index_put_True_count_ge [OF p] have "unread_count (read s1) \<le> unread_count (read s') + batch_len b"
    using s' bl by simp
  with s1 s' show ?thesis by (simp add: same_config_def)
qed

theorem threshold_met_before_serving_witness:
  "next_batch (\<lambda>n. [0..<n]) (scenario_with [101, 102, 103, 104, 105, 106, 107, 108]
        [True, True, True, True, True, True, False, False] [[9, 10, 11, 12], [13, 14, 15, 16]])
     = Some (Inr (Single [107, 108]), scenario_with [101, 102, 103, 104, 105, 106, 107, 108]
        [True, True, True, True, True, True, True, True] [[9, 10, 11, 12], [13, 14, 15, 16]]) \<and>
   (2::int) < 2 ^ 63 \<and>
   (2::int) \<le> int (unread_count [True, True, True, True, True, True, True, True]) + int (length [107::nat, 108])"
proof -
  let ?s = "scenario_with [101, 102, 103, 104, 105, 106, 107, 108]
        [True, True, True, True, True, True, False, False] [[9, 10, 11, 12], [13, 14, 15, 16]]"
  let ?s' = "scenario_with [101, 102, 103, 104, 105, 106, 107, 108]
        [True, True, True, True, True, True, True, True] [[9, 10, 11, 12], [13, 14, 15, 16]]"
  have c: "next_batch (\<lambda>n. [0..<n]) ?s = Some (Inr (Single [107, 108]), ?s')"
    by (rule scenario_fourth_call)
  have "n_ctxs ?s * ctx_len ?s div 2 < 2 ^ 63" by (simp add: scenario_with_def)
  from threshold_met_before_serving [OF c this] show ?thesis
    using c by (simp add: scenario_with_def)
qed

text \<open>
  Claim C5 as stated fails: in the scenario, three calls leave two unread rows; the fourth
  call does not refresh (2 is not below the threshold 2), returns both, and leaves none.
\<close>

theorem unread_below_threshold_after_call:
  "\<exists>s0. scenario = Inr s0 \<and>
     next_batches [\<lambda>n. [0..<n], \<lambda>n. [0..<n], \<lambda>n. [0..<n]] s0 =
       Some (scenario_with [101, 102, 103, 104, 105, 106, 107, 108] [True, True, True, True, True, True, False, False] [[9, 10, 11, 12], [13, 14, 15, 16]]) \<and>
     next_batch (\<lambda>n. [0..<n]) (scenario_with [101, 102, 103, 104, 105, 106, 107, 108] [True, True, True, True, True, True, False, False] [[9, 10, 11, 12], [13, 14, 15, 16]]) =
       Some (Inr (Single [107, 108]),
             scenario_with [101, 102, 103, 104, 105, 106, 107, 108] [True, True, True, True, True, True, True, True] [[9, 10, 11, 12], [13, 14, 15, 16]]) \<and>
     unread_count (read (scenario_with [101, 102, 103, 104, 105, 106, 107, 108] [True, True, True, True, True, True, True, True] [[9, 10, 11, 12], [13, 14, 15, 16]])) = 0 \<and>
     n_ctxs (scenario_with [101, 102, 103, 104, 105, 106, 107, 108] [True, True, True, True, True, True, True, True] [[9, 10, 11, 12], [13, 14, 15, 16]]) *
       ctx_len (scenario_with [101, 102, 103, 104, 105, 106, 107, 108] [True, True, True, True, True, True, True, True] [[9, 10, 11, 12], [13, 14, 15, 16]]) div 2 = 2"
proof -
  from scenario_first_call obtain s0 where s0: "scenario = Inr s0"
    and c1: "next_batch (\<lambda>n. [0..<n]) s0 = Some (Inr (Single [101, 102]),
       scenario_with [101, 102, 103, 104, 105, 106, 107, 108] [True, True, False, False, False, False, False, False] [[9, 10, 11, 12], [13, 14, 15, 16]])"
    by blast
  have "next_batches [\<lambda>n. [0..<n], \<lambda>n. [0..<n], \<lambda>n. [0..<n]] s0 =
       Some (scenario_with [101, 102, 103, 104, 105, 106, 107, 108] [True, True, True, True, True, True, False, False] [[9, 10, 11, 12], [13, 14, 15, 16]])"
    by (simp add: c1 scenario_second_call scenario_third_call)
  moreover have "unread_count (read (scenario_with [101, 102, 103, 104, 105, 106, 107, 108] [True, True, True, True, True, True, True, True] [[9, 10, 11, 12], [13, 14, 15, 16]])) = 0"
    by (simp add: scenario_with_def unread_count_def)
  moreover have "n_ctxs (scenario_with [101, 102, 103, 104, 105, 106, 107, 108] [True, True, True, True, True, True, True, True] [[9, 10, 11, 12], [13, 14, 15, 16]]) *
       ctx_len (scenario_with [101, 102, 103, 104, 105, 106, 107, 108] [True, True, True, True, True, True, True, True] [[9, 10, 11, 12], [13, 14, 15, 16]]) div 2 = 2"
    by (simp add: scenario_with_def)
  ultimately show ?thesis using s0 scenario_fourth_call by blast
qed

section \<open>The scenario of the specification\<close>

text \<open>
  Claim C4 as stated fails: the refill of the first call stops after one ingestion batch,
  two texts of four tokens, since 8 rows are not fewer than \<open>n_ctxs * ctx_len = 4\<close>. The
  buffer then holds 8 rows, not 16, and 6 are unread after the call, not 14.
\<close>

theorem scenario_refill_makes_eight_rows:
  "\<exists>s0 s1 a. scenario = Inr s0 \<and>
     next_batch (\<lambda>n. [0..<n]) s0 = Some (Inr (Single [101, 102]), s1) \<and>
     activations s1 = Some a \<and> length a = 8 \<and> length a \<noteq> 16 \<and>
     unread_count (read s1) = 6 \<and> unread_count (read s1) \<noteq> 14"
proof -
  from scenario_first_call obtain s0 where s0: "scenario = Inr s0"
    and c1: "next_batch (\<lambda>n. [0..<n]) s0 = Some (Inr (Single [101, 102]),
       scenario_with [101, 102, 103, 104, 105, 106, 107, 108] [True, True, False, False, False, False, False, False] [[9, 10, 11, 12], [13, 14, 15, 16]])"
    by blast
  have "activations (scenario_with [101, 102, 103, 104, 105, 106, 107, 108] [True, True, False, False, False, False, False, False] [[9, 10, 11, 12], [13, 14, 15, 16]])
      = Some [101, 102, 103, 104, 105, 106, 107, 108]"
    and "unread_count (read (scenario_with [101, 102, 103, 104, 105, 106, 107, 108] [True, True, False, False, False, False, False, False] [[9, 10, 11, 12], [13, 14, 15, 16]])) = 6"
    by (simp_all add: scenario_with_def unread_count_def)
  with s0 c1 show ?thesis by fastforce
qed

text \<open>
  Claim C4, amended. For every permutation drawn, the first call of the scenario refills
  the buffer with the 8 rows of the first two texts and leaves the other two texts in the
  source. All 8 rows are unread then, so the batch is made of the rows at the first two
  indices of the permutation of 8: two distinct rows of the buffer. Exactly their flags
  are set, and 6 rows stay unread.
\<close>

theorem scenario_first_call_serves_two_of_eight:
  assumes "is_randperm rp"
  shows "scenario = Inr (scenario_with [] [] [[1, 2, 3, 4], [5, 6, 7, 8], [9, 10, 11, 12], [13, 14, 15, 16]]) \<and>
     next_batch rp (scenario_with [] [] [[1, 2, 3, 4], [5, 6, 7, 8], [9, 10, 11, 12], [13, 14, 15, 16]])
       = Some (Inr (Single (map (\<lambda>j. [101, 102, 103, 104, 105, 106, 107, 108] ! j) (take 2 (rp 8)))),
               scenario_with [101, 102, 103, 104, 105, 106, 107, 108]
                 (map (\<lambda>i. i \<in> set (take 2 (rp 8))) [0..<8])
                 [[9, 10, 11, 12], [13, 14, 15, 16]]) \<and>
     distinct (take 2 (rp 8)) \<and> length (take 2 (rp 8)) = 2 \<and>
     list_all (\<lambda>j. j < 8) (take 2 (rp 8)) \<and>
     unread_count (map (\<lambda>i. i \<in> set (take 2 (rp 8))) [0..<8]) = 6"
proof -
  let ?s0 = "scenario_with [] [] [[1, 2, 3, 4], [5, 6, 7, 8], [9, 10, 11, 12], [13, 14, 15, 16]]"
  let ?a = "[101, 102, 103, 104, 105, 106, 107, 108] :: nat list"
  let ?f = "scenario_with ?a [False, False, False, False, False, False, False, False]
      [[9, 10, 11, 12], [13, 14, 15, 16]]"
  let ?js = "take 2 (rp 8)"
  have low: "below_threshold ?s0 = Inr True"
    by (simp add: scenario_with_def below_threshold_def tensor_lt_def unread_count_def)
  have nb: "next_batch rp ?s0 = Some (serve rp ?f)"
    by (simp only: next_batch_def low sum.case if_True scenario_refresh' option.case prod.case)
  have u: "unread_count (read ?f) = 8" by (simp add: scenario_with_def unread_count_def)
  have rdf: "read ?f = [False, False, False, False, False, False, False, False]"
    and obs: "out_batch_size ?f = 2"
    by (simp_all add: scenario_with_def)
  have in8: "list_all (\<lambda>j. j < 8) ?js"
  proof -
    have "set ?js \<subseteq> set (rp 8)" by (rule set_take_subset)
    also have "\<dots> = {0..<8}" using assms by (simp add: is_randperm_def)
    finally show ?thesis by (auto simp: list_all_iff)
  qed
  have d: "distinct ?js" using assms by (simp add: is_randperm_def)
  have l2: "length ?js = 2" using length_randperm [OF assms, of 8] by simp
  have "\<exists>idxs rd'. serve rp ?f = (Inr (Single (map (\<lambda>j. ?a ! j) idxs)), ?f\<lparr>read := rd'\<rparr>) \<and>
     select_idxs rp (out_batch_size ?f) (read ?f) = Inr idxs \<and>
     index_put_True (read ?f) idxs = Inr rd' \<and> distinct idxs \<and> set idxs \<subseteq> unread_set (read ?f) \<and>
     length idxs = length (slice_to (out_batch_size ?f) (rp (unread_count (read ?f)))) \<and>
     length rd' = length (read ?f) \<and> unread_count rd' = unread_count (read ?f) - length idxs"
    by (rule serve_randperm_std [OF assms]) (simp_all add: u, simp_all add: scenario_with_def)
  then obtain idxs rd' where sv: "serve rp ?f = (Inr (Single (map (\<lambda>j. ?a ! j) idxs)), ?f\<lparr>read := rd'\<rparr>)"
    and sel: "select_idxs rp (out_batch_size ?f) (read ?f) = Inr idxs"
    and put: "index_put_True (read ?f) idxs = Inr rd'"
    and uc: "unread_count rd' = unread_count (read ?f) - length idxs"
    by blast
  have nz: "nonzero (map Not (read ?f)) = [0..<8]"
    by (simp add: rdf nonzero_def upt_8)
  from select_idxs_Inr(2) [OF sel]
  have "idxs = map (\<lambda>j. [0..<8] ! j) ?js"
    by (simp add: nz u obs slice_to_def)
  also have "\<dots> = map (\<lambda>j. j) ?js"
    using in8 by (intro map_cong refl) (simp add: list_all_iff)
  finally have idxs: "idxs = ?js" by simp
  have rd': "rd' = map (\<lambda>i. i \<in> set ?js) [0..<8]"
  proof -
    have "replicate 8 False = [False, False, False, False, False, False, False, False]"
      by (simp add: numeral_eq_Suc)
    then have rep: "read ?f = replicate 8 False" by (simp only: rdf)
    then have l8: "length (read ?f) = 8" by (simp only: length_replicate)
    from index_put_True_map [OF put]
    have "rd' = map (\<lambda>i. read ?f ! i \<or> i \<in> set ?js) [0..<8]"
      by (simp only: l8 idxs)
    also have "\<dots> = map (\<lambda>i. i \<in> set ?js) [0..<8]"
    proof (rule map_cong [OF refl])
      fix i :: nat assume "i \<in> set [0..<8]"
      then have "i < 8" by simp
      then have "read ?f ! i = False" by (simp only: rep nth_replicate)
      then show "(read ?f ! i \<or> i \<in> set ?js) = (i \<in> set ?js)" by simp
    qed
    finally show ?thesis .
  qed
  have s1: "?f\<lparr>read := rd'\<rparr> = scenario_with ?a (map (\<lambda>i. i \<in> set ?js) [0..<8])
      [[9, 10, 11, 12], [13, 14, 15, 16]]"
    by (simp add: scenario_with_def rd')
  have six: "unread_count (map (\<lambda>i. i \<in> set ?js) [0..<8]) = 6"
    using uc u l2 by (simp add: idxs rd')
  from nb sv have "next_batch rp ?s0 = Some (Inr (Single (map (\<lambda>j. ?a ! j) ?js)),
      scenario_with ?a (map (\<lambda>i. i \<in> set ?js) [0..<8]) [[9, 10, 11, 12], [13, 14, 15, 16]])"
    by (simp only: idxs s1)
  with scenario_init d l2 in8 six show ?thesis by blast
qed

theorem scenario_first_call_serves_two_of_eight_witness:
  "is_randperm (\<lambda>n. rev [0..<n]) \<and>
   next_batch (\<lambda>n. rev [0..<n])
     (scenario_with [] [] [[1, 2, 3, 4], [5, 6, 7, 8], [9, 10, 11, 12], [13, 14, 15, 16]])
     = Some (Inr (Single [108, 107]),
             scenario_with [101, 102, 103, 104, 105, 106, 107, 108]
               [False, False, False, False, False, False, True, True]
               [[9, 10, 11, 12], [13, 14, 15, 16]]) \<and>
   unread_count [False, False, False, False, False, False, True, True] = 6"
proof -
  have p: "is_randperm (\<lambda>n. rev [0..<n])" by (simp add: is_randperm_def)
  from scenario_first_call_serves_two_of_eight [OF p] p show ?thesis
    by (simp add: upt_8)
qed

section \<open>Flags and buffer length\<close>

text \<open>
  Claim C6, at two buffers where it fails. \<open>_refresh_std\<close> compacts \<open>self.activations\<close>
  first and replaces \<open>self.read\<close> only after an append. In the scenario after its first
  call, a manual refresh finds 6 unread rows, which is not below the target 4: no append,
  and the 8 old flags stay with the 6 rows. In the small buffer after its first call, a
  refresh compacts to 1 row and the empty text source raises \<open>StopIteration\<close>: the 2 old
  flags stay with the 1 row.
\<close>

theorem flags_outlast_compaction:
  "\<exists>s0 s1 s2 s3. scenario = Inr s0 \<and>
     next_batch (\<lambda>n. [0..<n]) s0 = Some (Inr (Single [101, 102]), s1) \<and>
     refresh s1 = Some (Inr (), s2) \<and>
     activations s2 = Some [103, 104, 105, 106, 107, 108] \<and>
     read s2 = [True, True, False, False, False, False, False, False] \<and>
     refresh tiny_left = Some (Inl StopIteration, s3) \<and>
     activations s3 = Some [102] \<and> read s3 = [True, False]"
proof -
  from scenario_first_call obtain s0 where s0: "scenario = Inr s0"
    and c1: "next_batch (\<lambda>n. [0..<n]) s0 = Some (Inr (Single [101, 102]),
       scenario_with [101, 102, 103, 104, 105, 106, 107, 108]
         [True, True, False, False, False, False, False, False] [[9, 10, 11, 12], [13, 14, 15, 16]])"
    by blast
  let ?s2 = "scenario_with [103, 104, 105, 106, 107, 108]
        [True, True, False, False, False, False, False, False] [[9, 10, 11, 12], [13, 14, 15, 16]]"
  let ?s3 = "tiny_left\<lparr>activations := Some [102], data := []\<rparr>"
  have "activations ?s2 = Some [103, 104, 105, 106, 107, 108]"
    "read ?s2 = [True, True, False, False, False, False, False, False]"
    by (simp_all add: scenario_with_def)
  moreover have "activations ?s3 = Some [102]" "read ?s3 = [True, False]"
    by (simp_all add: tiny_left_def)
  ultimately show ?thesis
    using s0 c1 scenario_manual_refresh tiny_exhausted by blast
qed

section \<open>Exhaustion of the text source\<close>

text \<open>
  Claim C7 as stated fails: with the two-text source, the first call ingests both texts,
  so fewer than \<open>in_batch_size\<close> texts remain (none); a refresh then compacts to 6 rows,
  which is not below the target 4, asks for no text and returns normally.
\<close>

theorem refresh_of_full_buffer_returns:
  "\<exists>s0 s1 s2. short_source = Inr s0 \<and>
     next_batch (\<lambda>n. [0..<n]) s0 = Some (Inr (Single [101, 102]), s1) \<and>
     data s1 = [] \<and> in_batch_size s1 = 2 \<and> synced s1 \<and>
     refresh s1 = Some (Inr (), s2)"
proof -
  let ?s1 = "scenario_with [101, 102, 103, 104, 105, 106, 107, 108]
        [True, True, False, False, False, False, False, False] []"
  have "data ?s1 = []" "in_batch_size ?s1 = 2" "synced ?s1"
    by (simp_all add: scenario_with_def synced_def)
  then show ?thesis using short_first_call short_refresh by blast
qed

text \<open>
  Claim C7, amended. In a buffer whose flags are as long as its rows, with fewer than
  \<open>in_batch_size\<close> texts left and fewer than \<open>n_ctxs * ctx_len\<close> unread rows, \<open>refresh\<close>
  raises \<open>StopIteration\<close>; afterwards the buffer (both buffers, with two taps) holds
  exactly the rows that were unread, in order, and nothing appended. The texts pulled
  before the source ended are gone.
\<close>

theorem refresh_exhausted_raises:
  assumes "synced s" and "int (length (data s)) < in_batch_size s"
    and "int (unread_count (read s)) < n_ctxs s * ctx_len s"
  shows "\<exists>s'. refresh s = Some (Inl StopIteration, s') \<and> data s' = [] \<and>
     (if io s = ''in'' \<or> io s = ''out''
      then \<exists>a. activations s = Some a \<and>
             activations s' = Some (map fst (filter snd (zip a (map Not (read s)))))
      else \<exists>a_in a_out. activations_in s = Some a_in \<and> activations_out s = Some a_out \<and>
             activations_in s' = Some (map fst (filter snd (zip a_in (map Not (read s))))) \<and>
             activations_out s' = Some (map fst (filter snd (zip a_out (map Not (read s))))))"
proof (cases "io s = ''in'' \<or> io s = ''out''")
  case True
  with assms(1) obtain a where a: "activations s = Some a" and l: "length (read s) = length a"
    by (auto simp: synced_def split: option.splits)
  let ?kept = "map fst (filter snd (zip a (map Not (read s))))"
  let ?s0 = "s\<lparr>activations := Some ?kept\<rparr>"
  have m: "mask_index a (map Not (read s)) = Inr ?kept"
    using l by (rule mask_index_Not_synced)
  from length_mask_index_Not [OF m] assms(3)
  have g: "int (length ?kept) < n_ctxs ?s0 * ctx_len ?s0" by simp
  have tb: "text_batch None ?s0 = (Inl StopIteration, ?s0\<lparr>data := []\<rparr>)"
    using assms(2) by (intro text_batch_StopIteration) simp
  have "refresh_std_body ?s0 = (Inl StopIteration, ?s0\<lparr>data := []\<rparr>)"
    by (simp add: refresh_std_body_def cat_def tb)
  with g have "refresh_std_loop ?s0 = Some (Inl StopIteration, ?s0\<lparr>data := []\<rparr>)"
    by (intro refresh_std_loop_raise [where a = ?kept]) simp_all
  then have "refresh s = Some (Inl StopIteration, ?s0\<lparr>data := []\<rparr>)"
    using True a m by (simp add: refresh_def refresh_std_def)
  then show ?thesis using True a by simp
next
  case False
  with assms(1) obtain a_in a_out where a: "activations_in s = Some a_in" "activations_out s = Some a_out"
    and l: "length (read s) = length a_in" "length a_out = length a_in"
    by (auto simp: synced_def split: option.splits)
  let ?kin = "map fst (filter snd (zip a_in (map Not (read s))))"
  let ?kout = "map fst (filter snd (zip a_out (map Not (read s))))"
  let ?s0 = "s\<lparr>activations_in := Some ?kin, activations_out := Some ?kout\<rparr>"
  have m: "mask_index a_in (map Not (read s)) = Inr ?kin" "mask_index a_out (map Not (read s)) = Inr ?kout"
    using l by (simp_all add: mask_index_Not_synced)
  from length_mask_index_Not [OF m(1)] assms(3)
  have g: "int (length ?kin) < n_ctxs ?s0 * ctx_len ?s0" by simp
  have tb: "text_batch None ?s0 = (Inl StopIteration, ?s0\<lparr>data := []\<rparr>)"
    using assms(2) by (intro text_batch_StopIteration) simp
  have "refresh_in_to_out_body ?s0 = (Inl StopIteration, ?s0\<lparr>data := []\<rparr>)"
    by (simp add: refresh_in_to_out_body_def cat_def tb)
  with g have "refresh_in_to_out_loop ?s0 = Some (Inl StopIteration, ?s0\<lparr>data := []\<rparr>)"
    by (subst refresh_in_to_out_loop_unfold [where a = ?kin]) simp_all
  then have "refresh s = Some (Inl StopIteration, ?s0\<lparr>data := []\<rparr>)"
    using False a m by (simp add: refresh_def refresh_in_to_out_def)
  then show ?thesis using False a by simp
qed

theorem refresh_exhausted_raises_witness:
  "synced tiny_left \<and> int (length (data tiny_left)) < in_batch_size tiny_left \<and>
   int (unread_count (read tiny_left)) < n_ctxs tiny_left * ctx_len tiny_left \<and>
   (\<exists>s'. refresh tiny_left = Some (Inl StopIteration, s') \<and> data s' = [] \<and>
      activations s' = Some [102])"
proof -
  have h: "synced tiny_left" "int (length (data tiny_left)) < in_batch_size tiny_left"
    "int (unread_count (read tiny_left)) < n_ctxs tiny_left * ctx_len tiny_left"
    by (simp_all add: tiny_left_def synced_def unread_count_def)
  from refresh_exhausted_raises [OF h] obtain s' where
    "refresh tiny_left = Some (Inl StopIteration, s')" "data s' = []"
    "activations s' = Some (map fst (filter snd (zip [101, 102] (map Not [True, False]))))"
    by (auto simp: tiny_left_def)
  then show ?thesis using h by auto
qed

section \<open>The two taps\<close>

text \<open>
  Claim C3 as stated fails. The loop body of \<open>_refresh_in_to_out\<close> assigns
  \<open>activations_in\<close> (line 153) before it appends to \<open>activations_out\<close> (line 154). When the
  second \<open>t.cat\<close> raises, here because the buffer was constructed with \<open>out_feats = 4\<close> and
  the output tap has rows of width 8, the call leaves five rows on the input side and none
  on the output side.
\<close>

theorem output_append_raises_after_input_append:
  "dual_narrow = Inr (dual_narrow_with [] [] [] [[1, 2], [3, 4, 5]]) \<and>
   next_batch (\<lambda>n. [0..<n]) (dual_narrow_with [] [] [] [[1, 2], [3, 4, 5]]) =
     Some (Inl RuntimeError, dual_narrow_with [1, 2, 3, 4, 5] [] [] []) \<and>
   activations_in (dual_narrow_with [1, 2, 3, 4, 5] [] [] []) = Some [1, 2, 3, 4, 5] \<and>
   activations_out (dual_narrow_with [1, 2, 3, 4, 5] [] [] []) = Some [] \<and>
   length [1, 2, 3, 4, 5 :: nat] \<noteq> length ([] :: nat list)"
proof -
  have "dual_narrow = Inr (dual_narrow_with [] [] [] [[1, 2], [3, 4, 5]])"
    by (simp add: dual_narrow_def dual_narrow_with_def dual_with_def ActivationBuffer_init_def t_empty_def)
  moreover have "next_batch (\<lambda>n. [0..<n]) (dual_narrow_with [] [] [] [[1, 2], [3, 4, 5]]) =
     Some (Inl RuntimeError, dual_narrow_with [1, 2, 3, 4, 5] [] [] [])"
    by (simp add: dual_narrow_with_def dual_with_def eval_dual_defs upt_facts upt_5 upt_3)
  ultimately show ?thesis by (simp add: dual_narrow_with_def dual_with_def)
qed

text \<open>
  Claim C3, amended. Start from a buffer constructed with \<open>io = 'in_to_out'\<close> and let any
  calls of \<open>__next__\<close> and \<open>refresh\<close> follow, returning or raising, none of them raising
  \<open>RuntimeError\<close>. If the model relates its taps (at every position with a non-zero
  attention mask the input-side and the output-side row belong together, written \<open>R\<close>),
  then in every state reached both buffers exist, have the same length, and hold related
  rows at every index; and every batch a further call returns is a pair of equally long,
  index-wise related halves. Compaction uses one mask, the append one attention mask, and
  the batch one index vector for both buffers.
\<close>

theorem buffers_stay_aligned:
  assumes "ActivationBuffer_init dat mdl sub in_feats out_feats ''in_to_out'' n c ib ob = Inr s0"
    and "taps_related R mdl" and "reachable s0 s"
  shows "(\<exists>a_in a_out. activations_in s = Some a_in \<and> activations_out s = Some a_out \<and>
            length a_in = length a_out \<and> list_all2 R a_in a_out) \<and>
         (\<forall>rp b s'. next_batch rp s = Some (Inr b, s') \<longrightarrow>
            (\<exists>b_in b_out. b = Pair b_in b_out \<and> length b_in = length b_out \<and>
               list_all2 R b_in b_out))"
proof -
  note i = init_in_to_out [OF assms(1)]
  have a0: "aligned R s0" using i by (simp add: aligned_def)
  have t0: "taps_related R (model s0)" using i assms(2) by simp
  from reachable_aligned [OF assms(3) a0 t0 i(4)]
  have al: "aligned R s" and m: "model s = model s0" and io: "io s = ''in_to_out''" by simp_all
  from al have 1: "\<exists>a_in a_out. activations_in s = Some a_in \<and> activations_out s = Some a_out \<and>
            length a_in = length a_out \<and> list_all2 R a_in a_out"
    by (auto simp: aligned_def list_all2_lengthD split: option.splits)
  have 2: "\<exists>b_in b_out. b = Pair b_in b_out \<and> length b_in = length b_out \<and> list_all2 R b_in b_out"
    if nb: "next_batch rp s = Some (Inr b, s')" for rp b s'
  proof -
    from next_batch_Inr [OF nb] obtain s1 where
      r: "if below_threshold s = Inr True
          then refresh s = Some (Inr (), s1) else s1 = s"
      and sv: "serve rp s1 = (Inr b, s')"
      by blast
    have "aligned R s1 \<and> io s1 = ''in_to_out''"
    proof (cases "below_threshold s = Inr True")
      case False
      with r al io show ?thesis by simp
    next
      case True
      with r io have "refresh_in_to_out s = Some (Inr (), s1)" by (simp add: refresh_def)
      from refresh_in_to_out_aligned [OF this al] t0 m io show ?thesis
        by (simp add: same_config_def)
    qed
    then have "aligned R s1" "\<not> (io s1 = ''in'' \<or> io s1 = ''out'')" by simp_all
    from serve_pair_aligned [OF sv this] show ?thesis
      by (auto simp: list_all2_lengthD)
  qed
  from 1 2 show ?thesis by blast
qed

theorem buffers_stay_aligned_witness:
  "dual = Inr (dual_with [] [] [] [[1, 2], [3, 4, 5]]) \<and>
   taps_related (\<lambda>x y. y = x + 100) pad_model \<and>
   reachable (dual_with [] [] [] [[1, 2], [3, 4, 5]])
     (dual_with [3, 4, 5] [103, 104, 105] [True, True, False, False, False] []) \<and>
   list_all2 (\<lambda>x y. y = x + 100) [3, 4, 5] [103, 104, 105::nat] \<and>
   length (read (dual_with [3, 4, 5] [103, 104, 105] [True, True, False, False, False] [])) = 5"
proof -
  let ?s0 = "dual_with [] [] [] [[1, 2], [3, 4, 5]]"
  let ?s1 = "dual_with [1, 2, 3, 4, 5] [101, 102, 103, 104, 105] [True, True, False, False, False] []"
  let ?s2 = "dual_with [3, 4, 5] [103, 104, 105] [True, True, False, False, False] []"
  have i: "ActivationBuffer_init [[1, 2], [3, 4, 5]] pad_model
       \<lparr>in_features = Some 8, out_features = Some 8\<rparr> None None ''in_to_out'' 1 4 2 2 = Inr ?s0"
    using dual_init by (simp add: dual_def)
  have r1: "reachable ?s0 ?s1"
    by (rule reach_next [OF reach_init dual_first_call]) simp
  have r2: "reachable ?s0 ?s2"
    by (rule reach_refresh [OF r1 dual_refresh_exhausted]) simp
  from buffers_stay_aligned [OF i pad_model_taps_related r2]
  have "list_all2 (\<lambda>x y. y = x + 100) [3, 4, 5] [103, 104, 105::nat]"
    by (simp add: dual_with_def)
  moreover have "length (read ?s2) = 5" by (simp add: dual_with_def)
  ultimately show ?thesis using dual_init pad_model_taps_related r2 by simp
qed

section \<open>Resetting the flags against extending them\<close>

text \<open>
  Claim C8 as stated fails. \<open>_refresh_std\<close> filters only \<open>self.activations\<close> in line 117;
  \<open>self.read\<close> keeps its old flags, the true ones too, until line 131 replaces it. So the
  reset of line 131 is not the same as extending the existing flags. Take the scenario's
  buffer after three calls (8 rows, the first 6 read) and call \<open>refresh\<close>: the compaction
  leaves 2 rows and 8 flags of which 6 are true, and one append follows. With the reset,
  the 10 rows get 10 false flags; extending the flags the source holds gives 16 flags, 6 of
  them true.
\<close>

theorem extending_held_flags_differs:
  "refresh (scenario_with [101, 102, 103, 104, 105, 106, 107, 108]
        [True, True, True, True, True, True, False, False] [[9, 10, 11, 12], [13, 14, 15, 16]])
   = Some (Inr (), scenario_with [107, 108, 109, 110, 111, 112, 113, 114, 115, 116]
        [False, False, False, False, False, False, False, False, False, False] []) \<and>
   appends 1 refresh_std_body
     (scenario_with [107, 108]
        [True, True, True, True, True, True, False, False] [[9, 10, 11, 12], [13, 14, 15, 16]])
   = (Inr (), scenario_with [107, 108, 109, 110, 111, 112, 113, 114, 115, 116]
        [False, False, False, False, False, False, False, False, False, False] []) \<and>
   appends 1 extend_std_body
     (scenario_with [107, 108]
        [True, True, True, True, True, True, False, False] [[9, 10, 11, 12], [13, 14, 15, 16]])
   = (Inr (), scenario_with [107, 108, 109, 110, 111, 112, 113, 114, 115, 116]
        [True, True, True, True, True, True, False, False,
         False, False, False, False, False, False, False, False] [])"
proof -
  have "refresh (scenario_with [101, 102, 103, 104, 105, 106, 107, 108]
        [True, True, True, True, True, True, False, False] [[9, 10, 11, 12], [13, 14, 15, 16]])
   = Some (Inr (), scenario_with [107, 108, 109, 110, 111, 112, 113, 114, 115, 116]
        [False, False, False, False, False, False, False, False, False, False] [])"
    by (simp add: scenario_with_def eval_defs upt_facts)
  moreover have "appends 1 refresh_std_body
     (scenario_with [107, 108]
        [True, True, True, True, True, True, False, False] [[9, 10, 11, 12], [13, 14, 15, 16]])
   = (Inr (), scenario_with [107, 108, 109, 110, 111, 112, 113, 114, 115, 116]
        [False, False, False, False, False, False, False, False, False, False] [])"
    by (simp add: scenario_with_def refresh_std_body_def cat_def text_batch_def pad_model_def
        Let_def mask_index2_def)
  moreover have "appends 1 extend_std_body
     (scenario_with [107, 108]
        [True, True, True, True, True, True, False, False] [[9, 10, 11, 12], [13, 14, 15, 16]])
   = (Inr (), scenario_with [107, 108, 109, 110, 111, 112, 113, 114, 115, 116]
        [True, True, True, True, True, True, False, False,
         False, False, False, False, False, False, False, False] [])"
    by (simp add: scenario_with_def extend_std_body_def cat_def storage_append_def text_batch_def
        pad_model_def Let_def mask_index2_def)
  ultimately show ?thesis by (simp only: simp_thms)
qed

text \<open>
  Claim C8, amended. Take a buffer whose flags are as long as its rows. The source
  compacts the rows and, after each append, replaces the flags by all-false flags of the
  new length. The storage of the specification compacts rows and flags together
  (\<open>storage_compact\<close>) and extends the flags with false entries at each append
  (\<open>storage_append\<close>). Starting from the rows the source has compacted, on the one side
  with the flags the source holds and on the other with the flags compacted as well, for
  every number \<open>k > 0\<close> of appends: the source reaches a state after \<open>k\<close> appends exactly when
  the extending version reaches the same state. This holds for \<open>_refresh_std\<close> and for
  \<open>_refresh_in_to_out\<close>; the first conjunct of each part says that the source's refresh
  runs its loop from the compacted rows, and every state the loop returns is such a state
  after some number of appends (\<open>refresh_std_loop_appends\<close>). Before the first append the
  two states differ: the source has not touched its flags yet.
\<close>

theorem reset_is_extend_after_compaction:
  assumes "0 < k"
  shows
    "(activations s = Some a \<and> length (read s) = length a \<longrightarrow>
        refresh_std s =
          refresh_std_loop (s\<lparr>activations := Some (fst (storage_compact a (read s)))\<rparr>) \<and>
        ((appends k refresh_std_body
            (s\<lparr>activations := Some (fst (storage_compact a (read s)))\<rparr>) = (Inr (), s')) =
         (appends k extend_std_body
            (s\<lparr>activations := Some (fst (storage_compact a (read s))),
               read := snd (storage_compact a (read s))\<rparr>) = (Inr (), s')))) \<and>
     (activations_in s = Some a_in \<and> activations_out s = Some a_out \<and>
      length (read s) = length a_in \<and> length a_out = length a_in \<longrightarrow>
        refresh_in_to_out s =
          refresh_in_to_out_loop
            (s\<lparr>activations_in := Some (fst (storage_compact a_in (read s))),
               activations_out := Some (fst (storage_compact a_out (read s)))\<rparr>) \<and>
        ((appends k refresh_in_to_out_body
            (s\<lparr>activations_in := Some (fst (storage_compact a_in (read s))),
               activations_out := Some (fst (storage_compact a_out (read s)))\<rparr>) = (Inr (), s')) =
         (appends k extend_in_to_out_body
            (s\<lparr>activations_in := Some (fst (storage_compact a_in (read s))),
               activations_out := Some (fst (storage_compact a_out (read s))),
               read := snd (storage_compact a_in (read s))\<rparr>) = (Inr (), s'))))"
proof (intro conjI impI)
  assume h: "activations s = Some a \<and> length (read s) = length a"
  let ?kept = "fst (storage_compact a (read s))"
  from h show "refresh_std s = refresh_std_loop (s\<lparr>activations := Some ?kept\<rparr>)"
    by (simp add: refresh_std_def mask_index_storage_compact)
  have "activations (s\<lparr>activations := Some ?kept\<rparr>) = Some ?kept" by simp
  from appends_std_after_compaction [OF this assms, of s']
  show "(appends k refresh_std_body (s\<lparr>activations := Some ?kept\<rparr>) = (Inr (), s')) =
        (appends k extend_std_body
           (s\<lparr>activations := Some ?kept, read := snd (storage_compact a (read s))\<rparr>) = (Inr (), s'))"
    by (simp add: storage_compact_flags)
next
  assume h: "activations_in s = Some a_in \<and> activations_out s = Some a_out \<and>
      length (read s) = length a_in \<and> length a_out = length a_in"
  let ?kin = "fst (storage_compact a_in (read s))"
  let ?kout = "fst (storage_compact a_out (read s))"
  from h show "refresh_in_to_out s =
      refresh_in_to_out_loop (s\<lparr>activations_in := Some ?kin, activations_out := Some ?kout\<rparr>)"
    by (simp add: refresh_in_to_out_def mask_index_storage_compact)
  have "activations_in (s\<lparr>activations_in := Some ?kin, activations_out := Some ?kout\<rparr>) = Some ?kin"
    by simp
  from appends_in_to_out_after_compaction [OF this assms, of s']
  show "(appends k refresh_in_to_out_body
            (s\<lparr>activations_in := Some ?kin, activations_out := Some ?kout\<rparr>) = (Inr (), s')) =
        (appends k extend_in_to_out_body
            (s\<lparr>activations_in := Some ?kin, activations_out := Some ?kout,
               read := snd (storage_compact a_in (read s))\<rparr>) = (Inr (), s'))"
    by (simp add: storage_compact_flags)
qed

theorem reset_is_extend_after_compaction_witness:
  "appends 1 extend_std_body
     (scenario_with [103, 104, 105, 106, 107, 108] [False, False, False, False, False, False]
        [[9, 10, 11, 12], [13, 14, 15, 16]])
   = (Inr (), scenario_with [103, 104, 105, 106, 107, 108, 109, 110, 111, 112, 113, 114, 115, 116]
        [False, False, False, False, False, False, False, False, False, False, False, False, False, False] []) \<and>
   appends 1 extend_in_to_out_body
     (dual_with [2, 3] [102, 103] [False, False] [[7, 8], [9]])
   = (Inr (), dual_with [2, 3, 7, 8, 9] [102, 103, 107, 108, 109]
        [False, False, False, False, False] [])"
proof -
  let ?s = "scenario_with [101, 102, 103, 104, 105, 106, 107, 108]
        [True, True, False, False, False, False, False, False] [[9, 10, 11, 12], [13, 14, 15, 16]]"
  let ?d = "dual_with [1, 2, 3] [101, 102, 103] [True, False, False] [[7, 8], [9]]"
  have k: "0 < (1::nat)" by simp
  have c: "storage_compact [101, 102, 103, 104, 105, 106, 107, 108::nat]
        [True, True, False, False, False, False, False, False]
      = ([103, 104, 105, 106, 107, 108], [False, False, False, False, False, False])"
    "storage_compact [1, 2, 3::nat] [True, False, False] = ([2, 3], [False, False])"
    "storage_compact [101, 102, 103::nat] [True, False, False] = ([102, 103], [False, False])"
    by (simp_all add: storage_compact_def)
  have hs: "activations ?s = Some [101, 102, 103, 104, 105, 106, 107, 108] \<and>
      length (read ?s) = length [101, 102, 103, 104, 105, 106, 107, 108::nat]"
    by (simp add: scenario_with_def)
  have hd: "activations_in ?d = Some [1, 2, 3] \<and> activations_out ?d = Some [101, 102, 103] \<and>
      length (read ?d) = length [1, 2, 3::nat] \<and> length [101, 102, 103::nat] = length [1, 2, 3::nat]"
    by (simp add: dual_with_def)
  have es: "?s\<lparr>activations := Some [103, 104, 105, 106, 107, 108]\<rparr> =
      scenario_with [103, 104, 105, 106, 107, 108]
        [True, True, False, False, False, False, False, False] [[9, 10, 11, 12], [13, 14, 15, 16]]"
    "?s\<lparr>activations := Some [103, 104, 105, 106, 107, 108],
        read := [False, False, False, False, False, False]\<rparr> =
      scenario_with [103, 104, 105, 106, 107, 108] [False, False, False, False, False, False]
        [[9, 10, 11, 12], [13, 14, 15, 16]]"
    "(scenario_with [103, 104, 105, 106, 107, 108]
        [True, True, False, False, False, False, False, False] [[9, 10, 11, 12], [13, 14, 15, 16]])
       \<lparr>read := [False, False, False, False, False, False]\<rparr> =
      scenario_with [103, 104, 105, 106, 107, 108] [False, False, False, False, False, False]
        [[9, 10, 11, 12], [13, 14, 15, 16]]"
    by (simp_all add: scenario_with_def)
  have ed: "?d\<lparr>activations_in := Some [2, 3], activations_out := Some [102, 103]\<rparr> =
      dual_with [2, 3] [102, 103] [True, False, False] [[7, 8], [9]]"
    "?d\<lparr>activations_in := Some [2, 3], activations_out := Some [102, 103], read := [False, False]\<rparr> =
      dual_with [2, 3] [102, 103] [False, False] [[7, 8], [9]]"
    "(dual_with [2, 3] [102, 103] [True, False, False] [[7, 8], [9]])\<lparr>read := [False, False]\<rparr> =
      dual_with [2, 3] [102, 103] [False, False] [[7, 8], [9]]"
    by (simp_all add: dual_with_def)
  have rs: "read ?s = [True, True, False, False, False, False, False, False]"
    "read ?d = [True, False, False]"
    by (simp_all add: scenario_with_def dual_with_def)
  let ?s' = "scenario_with [103, 104, 105, 106, 107, 108, 109, 110, 111, 112, 113, 114, 115, 116]
        [False, False, False, False, False, False, False, False, False, False, False, False, False, False] []"
  let ?d' = "dual_with [2, 3, 7, 8, 9] [102, 103, 107, 108, 109]
        [False, False, False, False, False] []"
  have "(appends 1 refresh_std_body
            (?s\<lparr>activations := Some (fst (storage_compact [101, 102, 103, 104, 105, 106, 107, 108] (read ?s)))\<rparr>)
            = (Inr (), ?s')) =
         (appends 1 extend_std_body
            (?s\<lparr>activations := Some (fst (storage_compact [101, 102, 103, 104, 105, 106, 107, 108] (read ?s))),
               read := snd (storage_compact [101, 102, 103, 104, 105, 106, 107, 108::nat] (read ?s))\<rparr>)
            = (Inr (), ?s'))"
    by (rule reset_is_extend_after_compaction [OF k, THEN conjunct1, rule_format, OF hs, THEN conjunct2])
  then have 1: "appends 1 extend_std_body
     (scenario_with [103, 104, 105, 106, 107, 108] [False, False, False, False, False, False]
        [[9, 10, 11, 12], [13, 14, 15, 16]]) = (Inr (), ?s')"
    using scenario_one_append by (simp only: rs c fst_conv snd_conv es simp_thms)
  have "(appends 1 refresh_in_to_out_body
            (?d\<lparr>activations_in := Some (fst (storage_compact [1, 2, 3] (read ?d))),
               activations_out := Some (fst (storage_compact [101, 102, 103] (read ?d)))\<rparr>) = (Inr (), ?d')) =
         (appends 1 extend_in_to_out_body
            (?d\<lparr>activations_in := Some (fst (storage_compact [1, 2, 3] (read ?d))),
               activations_out := Some (fst (storage_compact [101, 102, 103] (read ?d))),
               read := snd (storage_compact [1, 2, 3::nat] (read ?d))\<rparr>) = (Inr (), ?d'))"
    by (rule reset_is_extend_after_compaction [OF k, THEN conjunct2, rule_format, OF hd, THEN conjunct2])
  then have 2: "appends 1 extend_in_to_out_body
     (dual_with [2, 3] [102, 103] [False, False] [[7, 8], [9]]) = (Inr (), ?d')"
    using dual_one_append by (simp only: rs c fst_conv snd_conv ed simp_thms)
  from 1 2 show ?thesis by simp
qed

section \<open>No row is served twice\<close>

text \<open>
  Claim C2. Take a constructed buffer, any sequence of \<open>__next__\<close> calls that returned, and
  one more call that returns, with a permutation from \<open>t.randperm\<close>. Let \<open>s1\<close> be the state
  the batch is drawn from: the state before the call, or the refreshed one when the
  comparison of line 75 found the unread count below the threshold. Then
  \<^item> the indices of the batch are distinct and all unread in \<open>s1\<close>: a consumed index is never
    drawn;
  \<^item> the batch is the rows of \<open>s1\<close> at these indices;
  \<^item> after the call the buffers are those of \<open>s1\<close>, and a flag is true exactly when it was
    true in \<open>s1\<close> or its index was drawn: no flag goes back to false;
  \<^item> a refresh keeps exactly the rows whose flag was false, in order, in front of the new
    rows, and leaves all flags false: every consumed row is dropped, and no kept row had a
    true flag.
\<close>

theorem no_row_served_twice:
  assumes "ActivationBuffer_init dat mdl sub in_feats out_feats io' n c ib ob = Inr s0"
    and "next_batches rps s0 = Some s"
    and "is_randperm rp"
    and "next_batch rp s = Some (Inr b, s')"
  shows "\<exists>s1 idxs.
     (if below_threshold s = Inr True
      then refresh s = Some (Inr (), s1) \<and> read s1 = replicate (length (read s1)) False \<and>
           (if io s = ''in'' \<or> io s = ''out''
            then \<exists>a new. activations s = Some a \<and> length (read s) = length a \<and>
                   activations s1 = Some (unread_rows a (read s) @ new) \<and>
                   length (read s1) = length (unread_rows a (read s) @ new)
            else \<exists>a_in a_out new_in new_out.
                   activations_in s = Some a_in \<and> activations_out s = Some a_out \<and>
                   length (read s) = length a_in \<and> length a_out = length a_in \<and>
                   activations_in s1 = Some (unread_rows a_in (read s) @ new_in) \<and>
                   activations_out s1 = Some (unread_rows a_out (read s) @ new_out) \<and>
                   length new_in = length new_out \<and>
                   length (read s1) = length (unread_rows a_in (read s) @ new_in))
      else s1 = s) \<and>
     select_idxs rp (out_batch_size s1) (read s1) = Inr idxs \<and>
     distinct idxs \<and> set idxs \<subseteq> unread_set (read s1) \<and>
     (if io s1 = ''in'' \<or> io s1 = ''out''
      then \<exists>a. activations s1 = Some a \<and> b = Single (map (\<lambda>j. a ! j) idxs)
      else \<exists>a_in a_out. activations_in s1 = Some a_in \<and> activations_out s1 = Some a_out \<and>
             b = Pair (map (\<lambda>j. a_in ! j) idxs) (map (\<lambda>j. a_out ! j) idxs)) \<and>
     read s' = map (\<lambda>i. read s1 ! i \<or> i \<in> set idxs) [0..<length (read s1)] \<and>
     activations s' = activations s1 \<and> activations_in s' = activations_in s1 \<and>
     activations_out s' = activations_out s1"
proof -
  have sy: "synced s" using assms(1,2,4) by (rule next_batches_init_synced)
  from next_batch_Inr [OF assms(4)] obtain s1 where
    r: "if below_threshold s = Inr True
        then refresh s = Some (Inr (), s1) else s1 = s"
    and sv: "serve rp s1 = (Inr b, s')"
    by blast
  let ?low = "below_threshold s = Inr True"
  \<comment> \<open>the refresh, when there is one\<close>
  have A: "if ?low
      then refresh s = Some (Inr (), s1) \<and> read s1 = replicate (length (read s1)) False \<and>
           (if io s = ''in'' \<or> io s = ''out''
            then \<exists>a new. activations s = Some a \<and> length (read s) = length a \<and>
                   activations s1 = Some (unread_rows a (read s) @ new) \<and>
                   length (read s1) = length (unread_rows a (read s) @ new)
            else \<exists>a_in a_out new_in new_out.
                   activations_in s = Some a_in \<and> activations_out s = Some a_out \<and>
                   length (read s) = length a_in \<and> length a_out = length a_in \<and>
                   activations_in s1 = Some (unread_rows a_in (read s) @ new_in) \<and>
                   activations_out s1 = Some (unread_rows a_out (read s) @ new_out) \<and>
                   length new_in = length new_out \<and>
                   length (read s1) = length (unread_rows a_in (read s) @ new_in))
      else s1 = s"
  proof (cases ?low)
    case False
    with r show ?thesis by simp
  next
    case True
    with r have rf: "refresh s = Some (Inr (), s1)" by simp
    from True have low: "int (unread_count (read s)) < n_ctxs s * ctx_len s" by (rule threshold_le_target)
    note rl = refresh_low_Inr [OF rf low]
    have "if io s = ''in'' \<or> io s = ''out''
            then \<exists>a new. activations s = Some a \<and> length (read s) = length a \<and>
                   activations s1 = Some (unread_rows a (read s) @ new) \<and>
                   length (read s1) = length (unread_rows a (read s) @ new)
            else \<exists>a_in a_out new_in new_out.
                   activations_in s = Some a_in \<and> activations_out s = Some a_out \<and>
                   length (read s) = length a_in \<and> length a_out = length a_in \<and>
                   activations_in s1 = Some (unread_rows a_in (read s) @ new_in) \<and>
                   activations_out s1 = Some (unread_rows a_out (read s) @ new_out) \<and>
                   length new_in = length new_out \<and>
                   length (read s1) = length (unread_rows a_in (read s) @ new_in)"
    proof (cases "io s = ''in'' \<or> io s = ''out''")
      case std: True
      with rf have "refresh_std s = Some (Inr (), s1)" by (simp add: refresh_def)
      from refresh_std_Inr [OF this] obtain a kept where
        a: "activations s = Some a" and k: "mask_index a (map Not (read s)) = Inr kept"
        and d: "\<not> int (length kept) < n_ctxs s * ctx_len s \<and> activations s1 = Some kept \<and> read s1 = read s \<or>
          int (length kept) < n_ctxs s * ctx_len s \<and>
          (\<exists>new. activations s1 = Some (kept @ new) \<and> read s1 = replicate (length (kept @ new)) False)"
        by blast
      from length_mask_index_Not [OF k] low have "int (length kept) < n_ctxs s * ctx_len s" by simp
      with d obtain new where "activations s1 = Some (kept @ new)"
        "read s1 = replicate (length (kept @ new)) False" by auto
      moreover from mask_index_unread_rows [OF k] have "kept = unread_rows a (read s)"
        "length (read s) = length a" by simp_all
      ultimately show ?thesis using std a by auto
    next
      case dual: False
      with rf have "refresh_in_to_out s = Some (Inr (), s1)" by (simp add: refresh_def)
      from refresh_in_to_out_Inr [OF this] obtain a_in a_out kept_in kept_out where
        a: "activations_in s = Some a_in" "activations_out s = Some a_out"
        and k: "mask_index a_in (map Not (read s)) = Inr kept_in"
          "mask_index a_out (map Not (read s)) = Inr kept_out"
        and d: "\<not> int (length kept_in) < n_ctxs s * ctx_len s \<and> activations_in s1 = Some kept_in \<and>
            activations_out s1 = Some kept_out \<and> read s1 = read s \<or>
          int (length kept_in) < n_ctxs s * ctx_len s \<and>
          (\<exists>new_in new_out. length new_in = length new_out \<and>
             activations_in s1 = Some (kept_in @ new_in) \<and> activations_out s1 = Some (kept_out @ new_out) \<and>
             read s1 = replicate (length (kept_in @ new_in)) False)"
        by blast
      from length_mask_index_Not [OF k(1)] low have "int (length kept_in) < n_ctxs s * ctx_len s" by simp
      with d obtain new_in new_out where "length new_in = length new_out"
        "activations_in s1 = Some (kept_in @ new_in)" "activations_out s1 = Some (kept_out @ new_out)"
        "read s1 = replicate (length (kept_in @ new_in)) False" by auto
      moreover from mask_index_unread_rows [OF k(1)] mask_index_unread_rows [OF k(2)]
      have "kept_in = unread_rows a_in (read s)" "kept_out = unread_rows a_out (read s)"
        "length (read s) = length a_in" "length a_out = length a_in" by simp_all
      ultimately show ?thesis using dual a by auto
    qed
    with True rf rl(3) show ?thesis by simp
  qed
  \<comment> \<open>the state the batch is drawn from\<close>
  have sy1: "synced s1"
  proof (cases ?low)
    case False
    with r sy show ?thesis by simp
  next
    case True
    with r have rf: "refresh s = Some (Inr (), s1)" by simp
    from True have "int (unread_count (read s)) < n_ctxs s * ctx_len s" by (rule threshold_le_target)
    from refresh_low_Inr(2) [OF rf this] show ?thesis .
  qed
  from sv obtain idxs0 rd0 where "select_idxs rp (out_batch_size s1) (read s1) = Inr idxs0"
    "index_put_True (read s1) idxs0 = Inr rd0"
    by (rule serve_Inr)
  then have "select_idxs rp (out_batch_size s1) (read s1) = Inr idxs0" by simp
  then have ne: "unread_count (read s1) \<noteq> 1" by (rule select_idxs_Inr(1))
  \<comment> \<open>the batch\<close>
  have B: "\<exists>idxs rd'. s' = s1\<lparr>read := rd'\<rparr> \<and>
     select_idxs rp (out_batch_size s1) (read s1) = Inr idxs \<and>
     index_put_True (read s1) idxs = Inr rd' \<and> distinct idxs \<and> set idxs \<subseteq> unread_set (read s1) \<and>
     (if io s1 = ''in'' \<or> io s1 = ''out''
      then \<exists>a. activations s1 = Some a \<and> b = Single (map (\<lambda>j. a ! j) idxs)
      else \<exists>a_in a_out. activations_in s1 = Some a_in \<and> activations_out s1 = Some a_out \<and>
             b = Pair (map (\<lambda>j. a_in ! j) idxs) (map (\<lambda>j. a_out ! j) idxs))"
  proof (cases "io s1 = ''in'' \<or> io s1 = ''out''")
    case True
    with sy1 obtain a where a: "activations s1 = Some a" "length (read s1) = length a"
      by (auto simp: synced_def split: option.splits)
    from serve_randperm_std [OF assms(3) ne True a] sv a True show ?thesis by auto
  next
    case False
    with sy1 obtain a_in a_out where a: "activations_in s1 = Some a_in" "activations_out s1 = Some a_out"
      "length (read s1) = length a_in" "length a_out = length a_in"
      by (auto simp: synced_def split: option.splits)
    from serve_randperm_in_to_out [OF assms(3) ne False a] sv a False show ?thesis by auto
  qed
  then obtain idxs rd' where s': "s' = s1\<lparr>read := rd'\<rparr>"
    and sel: "select_idxs rp (out_batch_size s1) (read s1) = Inr idxs"
    and put: "index_put_True (read s1) idxs = Inr rd'"
    and di: "distinct idxs" "set idxs \<subseteq> unread_set (read s1)"
    and bb: "if io s1 = ''in'' \<or> io s1 = ''out''
      then \<exists>a. activations s1 = Some a \<and> b = Single (map (\<lambda>j. a ! j) idxs)
      else \<exists>a_in a_out. activations_in s1 = Some a_in \<and> activations_out s1 = Some a_out \<and>
             b = Pair (map (\<lambda>j. a_in ! j) idxs) (map (\<lambda>j. a_out ! j) idxs)"
    by blast
  have C: "read s' = map (\<lambda>i. read s1 ! i \<or> i \<in> set idxs) [0..<length (read s1)]"
    "activations s' = activations s1" "activations_in s' = activations_in s1"
    "activations_out s' = activations_out s1"
    using s' index_put_True_map [OF put] by simp_all
  from A sel di bb C show ?thesis by blast
qed

theorem no_row_served_twice_witness:
  "scenario = Inr (scenario_with [] [] [[1, 2, 3, 4], [5, 6, 7, 8], [9, 10, 11, 12], [13, 14, 15, 16]]) \<and>
   is_randperm (\<lambda>n. [0..<n]) \<and>
   next_batch (\<lambda>n. [0..<n]) (scenario_with [] [] [[1, 2, 3, 4], [5, 6, 7, 8], [9, 10, 11, 12], [13, 14, 15, 16]])
     = Some (Inr (Single [101, 102]),
         scenario_with [101, 102, 103, 104, 105, 106, 107, 108] [True, True, False, False, False, False, False, False] [[9, 10, 11, 12], [13, 14, 15, 16]]) \<and>
   (\<exists>s1 new. refresh (scenario_with [] [] [[1, 2, 3, 4], [5, 6, 7, 8], [9, 10, 11, 12], [13, 14, 15, 16]])
        = Some (Inr (), s1) \<and>
      activations s1 = Some (unread_rows [] [] @ new) \<and>
      read s1 = replicate (length (read s1)) False) \<and>
   next_batches [\<lambda>n. [0..<n]] (scenario_with [] [] [[1, 2, 3, 4], [5, 6, 7, 8], [9, 10, 11, 12], [13, 14, 15, 16]])
     = Some (scenario_with [101, 102, 103, 104, 105, 106, 107, 108] [True, True, False, False, False, False, False, False] [[9, 10, 11, 12], [13, 14, 15, 16]]) \<and>
   next_batch (\<lambda>n. [0..<n]) (scenario_with [101, 102, 103, 104, 105, 106, 107, 108] [True, True, False, False, False, False, False, False] [[9, 10, 11, 12], [13, 14, 15, 16]])
     = Some (Inr (Single [103, 104]),
         scenario_with [101, 102, 103, 104, 105, 106, 107, 108] [True, True, True, True, False, False, False, False] [[9, 10, 11, 12], [13, 14, 15, 16]]) \<and>
   (\<exists>idxs. select_idxs (\<lambda>n. [0..<n]) 2 [True, True, False, False, False, False, False, False] = Inr idxs \<and>
      distinct idxs \<and> set idxs \<subseteq> unread_set [True, True, False, False, False, False, False, False] \<and>
      [True, True, True, True, False, False, False, False] =
        map (\<lambda>i. [True, True, False, False, False, False, False, False] ! i \<or> i \<in> set idxs) [0..<8])"
proof -
  let ?S0 = "scenario_with [] [] [[1, 2, 3, 4], [5, 6, 7, 8], [9, 10, 11, 12], [13, 14, 15, 16]]"
  let ?S1 = "scenario_with [101, 102, 103, 104, 105, 106, 107, 108] [True, True, False, False, False, False, False, False] [[9, 10, 11, 12], [13, 14, 15, 16]]"
  let ?S2 = "scenario_with [101, 102, 103, 104, 105, 106, 107, 108] [True, True, True, True, False, False, False, False] [[9, 10, 11, 12], [13, 14, 15, 16]]"
  have i: "ActivationBuffer_init [[1, 2, 3, 4], [5, 6, 7, 8], [9, 10, 11, 12], [13, 14, 15, 16]]
       pad_model \<lparr>in_features = None, out_features = None\<rparr> None (Some 8) ''out'' 1 4 2 2 = Inr ?S0"
    using scenario_init by (simp add: scenario_def)
  have p: "is_randperm (\<lambda>n. [0..<n])" by (simp add: is_randperm_def)
  have c1: "next_batch (\<lambda>n. [0..<n]) ?S0 = Some (Inr (Single [101, 102]), ?S1)"
    using scenario_first_call by (simp add: scenario_init)
  have c2: "next_batch (\<lambda>n. [0..<n]) ?S1 = Some (Inr (Single [103, 104]), ?S2)"
    by (rule scenario_second_call)
  have n0: "next_batches [] ?S0 = Some ?S0" by simp
  have n1: "next_batches [\<lambda>n. [0..<n]] ?S0 = Some ?S1"
    by (simp only: next_batches.simps c1 option.case prod.case sum.case)
  have low0: "below_threshold ?S0 = Inr True"
    by (simp add: scenario_with_def unread_count_def below_threshold_def tensor_lt_def)
  have low1: "below_threshold ?S1 \<noteq> Inr True"
    by (simp add: scenario_with_def unread_count_def below_threshold_def tensor_lt_def)
  have f0: "io ?S0 = ''out''" "activations ?S0 = Some []" "read ?S0 = []"
    by (simp_all add: scenario_with_def)
  have f1: "read ?S1 = [True, True, False, False, False, False, False, False]"
    "read ?S2 = [True, True, True, True, False, False, False, False]" "out_batch_size ?S1 = 2"
    by (simp_all add: scenario_with_def)
  from no_row_served_twice [OF i n0 p c1] low0 f0
  have w0: "\<exists>s1 new. refresh ?S0 = Some (Inr (), s1) \<and>
      activations s1 = Some (unread_rows [] [] @ new) \<and>
      read s1 = replicate (length (read s1)) False"
    by auto
  have l8: "length [True, True, False, False, False, False, False, False] = 8" by simp
  from no_row_served_twice [OF i n1 p c2] low1
  obtain idxs where sel: "select_idxs (\<lambda>n. [0..<n]) (out_batch_size ?S1) (read ?S1) = Inr idxs"
    "distinct idxs" "set idxs \<subseteq> unread_set (read ?S1)"
    "read ?S2 = map (\<lambda>i. read ?S1 ! i \<or> i \<in> set idxs) [0..<length (read ?S1)]"
    by auto
  have w1: "\<exists>idxs. select_idxs (\<lambda>n. [0..<n]) 2 [True, True, False, False, False, False, False, False] = Inr idxs \<and>
      distinct idxs \<and> set idxs \<subseteq> unread_set [True, True, False, False, False, False, False, False] \<and>
      [True, True, True, True, False, False, False, False] =
        map (\<lambda>i. [True, True, False, False, False, False, False, False] ! i \<or> i \<in> set idxs) [0..<8]"
    by (rule exI [of _ idxs], intro conjI) (rule sel [unfolded f1 l8])+
  from scenario_init p c1 w0 n1 c2 w1 show ?thesis by blast
qed

section \<open>Further properties\<close>

subsection \<open>The calls return\<close>

lemma refresh_std_body_consumes:
  assumes "refresh_std_body s = (Inr u, s1)" and "0 < in_batch_size s"
  shows "length (data s1) < length (data s)"
  using assms
  by (auto simp: refresh_std_body_def cat_def text_batch_def Let_def split: if_splits sum.splits option.splits)

lemma refresh_in_to_out_body_consumes:
  assumes "refresh_in_to_out_body s = (Inr u, s1)" and "0 < in_batch_size s"
  shows "length (data s1) < length (data s)"
  using assms
  by (auto simp: refresh_in_to_out_body_def cat_def text_batch_def Let_def
      split: if_splits sum.splits option.splits) arith+

lemma refresh_std_loop_returns:
  "0 < in_batch_size s \<Longrightarrow> \<exists>y. refresh_std_loop s = Some y"
proof (induction "length (data s)" arbitrary: s rule: less_induct)
  case less
  show ?case
  proof (cases "activations s")
    case None
    then show ?thesis by (subst refresh_std_loop.simps) simp
  next
    case (Some a)
    show ?thesis
    proof (cases "int (length a) < n_ctxs s * ctx_len s")
      case False
      with Some show ?thesis by (simp add: refresh_std_loop_exit)
    next
      case True
      obtain r s1 where b: "refresh_std_body s = (r, s1)" by (cases "refresh_std_body s")
      show ?thesis
      proof (cases r)
        case (Inl e)
        with Some True b show ?thesis by (simp add: refresh_std_loop_raise)
      next
        case (Inr u)
        from refresh_std_body_consumes [OF b [unfolded Inr] less.prems]
        have "length (data s1) < length (data s)" .
        moreover from refresh_std_body_frame(1) [OF b] less.prems have "0 < in_batch_size s1"
          by (simp add: same_config_def)
        ultimately have "\<exists>y. refresh_std_loop s1 = Some y" by (rule less.hyps)
        with Some True b Inr show ?thesis by (simp add: refresh_std_loop_unfold)
      qed
    qed
  qed
qed

lemma refresh_in_to_out_loop_returns:
  "0 < in_batch_size s \<Longrightarrow> \<exists>y. refresh_in_to_out_loop s = Some y"
proof (induction "length (data s)" arbitrary: s rule: less_induct)
  case less
  show ?case
  proof (cases "activations_in s")
    case None
    then show ?thesis by (subst refresh_in_to_out_loop.simps) simp
  next
    case (Some a)
    show ?thesis
    proof (cases "int (length a) < n_ctxs s * ctx_len s")
      case False
      with Some show ?thesis by (simp add: refresh_in_to_out_loop_exit)
    next
      case True
      obtain r s1 where b: "refresh_in_to_out_body s = (r, s1)" by (cases "refresh_in_to_out_body s")
      show ?thesis
      proof (cases r)
        case (Inl e)
        with Some True b show ?thesis by (simp add: refresh_in_to_out_loop_unfold)
      next
        case (Inr u)
        from refresh_in_to_out_body_consumes [OF b [unfolded Inr] less.prems]
        have "length (data s1) < length (data s)" .
        moreover from refresh_in_to_out_body_frame(1) [OF b] less.prems have "0 < in_batch_size s1"
          by (simp add: same_config_def)
        ultimately have "\<exists>y. refresh_in_to_out_loop s1 = Some y" by (rule less.hyps)
        with Some True b Inr show ?thesis by (simp add: refresh_in_to_out_loop_unfold)
      qed
    qed
  qed
qed

text \<open>
  With a positive \<open>in_batch_size\<close>, every pass of a refresh loop pulls at least one text from
  the (finite) source, so \<open>refresh\<close> and \<open>__next__\<close> always return or raise: the loops do not
  run forever.
\<close>

theorem refresh_and_next_batch_return:
  assumes "0 < in_batch_size s"
  shows "(\<exists>y. refresh s = Some y) \<and> (\<exists>y. next_batch rp s = Some y)"
proof -
  have std: "\<exists>y. refresh_std s = Some y"
  proof (cases "activations s")
    case None
    then show ?thesis by (simp add: refresh_std_def)
  next
    case (Some a)
    show ?thesis
    proof (cases "mask_index a (map Not (read s))")
      case (Inl e)
      with Some show ?thesis by (simp add: refresh_std_def)
    next
      case (Inr a')
      have "\<exists>y. refresh_std_loop (s\<lparr>activations := Some a'\<rparr>) = Some y"
        using assms by (intro refresh_std_loop_returns) simp
      with Some Inr show ?thesis by (simp add: refresh_std_def)
    qed
  qed
  have dual: "\<exists>y. refresh_in_to_out s = Some y"
  proof (cases "activations_in s")
    case None
    then show ?thesis by (simp add: refresh_in_to_out_def)
  next
    case (Some a_in)
    show ?thesis
    proof (cases "mask_index a_in (map Not (read s))")
      case (Inl e)
      with Some show ?thesis by (simp add: refresh_in_to_out_def)
    next
      case (Inr a_in')
      show ?thesis
      proof (cases "activations_out s")
        case None
        with Some Inr show ?thesis by (simp add: refresh_in_to_out_def)
      next
        case out: (Some a_out)
        show ?thesis
        proof (cases "mask_index a_out (map Not (read s))")
          case (Inl e)
          with Some Inr out show ?thesis by (simp add: refresh_in_to_out_def)
        next
          case out': (Inr a_out')
          have "\<exists>y. refresh_in_to_out_loop
                  (s\<lparr>activations_in := Some a_in', activations_out := Some a_out'\<rparr>) = Some y"
            using assms by (intro refresh_in_to_out_loop_returns) simp
          with Some Inr out out' show ?thesis by (simp add: refresh_in_to_out_def)
        qed
      qed
    qed
  qed
  from std dual have r: "\<exists>y. refresh s = Some y" by (simp add: refresh_def)
  then obtain y where y: "refresh s = Some y" ..
  obtain r1 s1 where "y = (r1, s1)" by (cases y)
  with y have "\<exists>y. next_batch rp s = Some y"
    by (cases r1) (simp_all add: next_batch_def split: sum.splits)
  with r show ?thesis by simp
qed

theorem refresh_and_next_batch_return_witness:
  "0 < in_batch_size tiny_left \<and> (\<exists>y. refresh tiny_left = Some y) \<and>
   (\<exists>y. next_batch (\<lambda>n. [0..<n]) tiny_left = Some y)"
proof -
  have h: "0 < in_batch_size tiny_left" by (simp add: tiny_left_def)
  from refresh_and_next_batch_return [OF h] h show ?thesis by simp
qed

subsection \<open>Mask filtering\<close>

lemma mask_row_count:
  "length r = length mr \<Longrightarrow>
   length (filter (\<lambda>(v, a). a \<noteq> (0::int)) (zip r mr)) = length (filter (\<lambda>a. a \<noteq> 0) mr)"
  by (induction r mr rule: list_induct2) auto

text \<open>
  \<open>h[attention_mask != 0]\<close> yields one row for each position whose mask is not 0: with \<open>M\<close>
  positions of which \<open>P\<close> are padding, \<open>M - P\<close> rows.
\<close>

theorem mask_index2_count:
  assumes "mask_index2 h am = Inr xs"
  shows "length xs = length (filter (\<lambda>a. a \<noteq> 0) (concat am)) \<and>
         length xs + length (filter (\<lambda>a. a = 0) (concat am)) = length (concat am)"
proof -
  from assms have sh: "map length am = map length h"
    and xs: "xs = concat (map (\<lambda>(r, mr). map fst (filter (\<lambda>(v, a). a \<noteq> 0) (zip r mr))) (zip h am))"
    by (auto simp: mask_index2_def split: if_splits)
  from sh have "length h = length am" by (metis length_map)
  then have "length (concat (map (\<lambda>(r, mr). map fst (filter (\<lambda>(v, a). a \<noteq> 0) (zip r mr))) (zip h am)))
      = length (filter (\<lambda>a. a \<noteq> 0) (concat am))"
    using sh
  proof (induction h am rule: list_induct2)
    case Nil
    then show ?case by simp
  next
    case (Cons r rs mr mrs)
    then have "length r = length mr" "map length mrs = map length rs" by simp_all
    with Cons.IH show ?case by (simp add: mask_row_count)
  qed
  with xs have 1: "length xs = length (filter (\<lambda>a. a \<noteq> 0) (concat am))" by simp
  have "length (filter (\<lambda>a. a \<noteq> 0) (concat am)) + length (filter (\<lambda>a. a = 0) (concat am))
      = length (concat am)"
    using sum_length_filter_compl [of "\<lambda>a. a \<noteq> 0" "concat am"] by simp
  with 1 show ?thesis by simp
qed

theorem mask_index2_count_witness:
  "mask_index2 [[1, 2, 0], [3, 4, 5::nat]] [[1, 1, 0], [1, 1, 1]] = Inr [1, 2, 3, 4, 5] \<and>
   length [1, 2, 3, 4, 5::nat] + length (filter (\<lambda>a. a = 0) (concat [[1, 1, 0], [1, 1, 1::int]]))
     = length (concat [[1, 1, 0], [1, 1, 1::int]])"
proof -
  have m: "mask_index2 [[1, 2, 0], [3, 4, 5::nat]] [[1, 1, 0], [1, 1, 1]] = Inr [1, 2, 3, 4, 5]"
    by (simp add: mask_index2_def)
  from mask_index2_count [OF m] m show ?thesis by simp
qed

subsection \<open>A call that serves\<close>

text \<open>
  What \<open>__next__\<close> does when the comparison of line 75 does not raise and the unread
  count of the state it draws from (the refreshed state, when the call refreshes) is not
  1: in a buffer whose flags are as long as its rows, with a permutation from \<open>t.randperm\<close>
  and a non-negative \<open>out_batch_size\<close>, the call returns the rows at
  \<open>min(out_batch_size, unread count)\<close> distinct unread indices and marks exactly those
  indices read.
\<close>

theorem next_batch_serves_unread_rows:
  assumes "synced s" and "is_randperm rp" and "0 \<le> out_batch_size s"
    and "if below_threshold s = Inr True
         then refresh s = Some (Inr (), s1) else below_threshold s = Inr False \<and> s1 = s"
    and "unread_count (read s1) \<noteq> 1"
  shows "\<exists>idxs b.
     next_batch rp s =
       Some (Inr b, s1\<lparr>read := map (\<lambda>i. read s1 ! i \<or> i \<in> set idxs) [0..<length (read s1)]\<rparr>) \<and>
     distinct idxs \<and> set idxs \<subseteq> unread_set (read s1) \<and>
     length idxs = min (nat (out_batch_size s)) (unread_count (read s1)) \<and>
     (if io s1 = ''in'' \<or> io s1 = ''out''
      then \<exists>a. activations s1 = Some a \<and> b = Single (map (\<lambda>j. a ! j) idxs)
      else \<exists>a_in a_out. activations_in s1 = Some a_in \<and> activations_out s1 = Some a_out \<and>
             b = Pair (map (\<lambda>j. a_in ! j) idxs) (map (\<lambda>j. a_out ! j) idxs))"
proof -
  let ?low = "below_threshold s = Inr True"
  have s1: "synced s1 \<and> out_batch_size s1 = out_batch_size s"
  proof (cases ?low)
    case False
    with assms(1,4) show ?thesis by simp
  next
    case True
    with assms(4) have rf: "refresh s = Some (Inr (), s1)" by simp
    from True have "int (unread_count (read s)) < n_ctxs s * ctx_len s" by (rule threshold_le_target)
    from refresh_low_Inr(1,2) [OF rf this] show ?thesis by (simp add: same_config_def)
  qed
  have nb: "next_batch rp s = Some (serve rp s1)"
    using assms(4) by (cases ?low) (simp_all add: next_batch_def)
  have len: "length (slice_to (out_batch_size s1) (rp (unread_count (read s1))))
      = min (nat (out_batch_size s)) (unread_count (read s1))"
    using assms(2,3) s1 by (simp add: length_slice_to length_randperm)
  show ?thesis
  proof (cases "io s1 = ''in'' \<or> io s1 = ''out''")
    case True
    with s1 obtain a where a: "activations s1 = Some a" "length (read s1) = length a"
      by (auto simp: synced_def split: option.splits)
    from serve_randperm_std [OF assms(2,5) True a] obtain idxs rd' where
      sv: "serve rp s1 = (Inr (Single (map (\<lambda>j. a ! j) idxs)), s1\<lparr>read := rd'\<rparr>)"
      and put: "index_put_True (read s1) idxs = Inr rd'"
      and d: "distinct idxs" "set idxs \<subseteq> unread_set (read s1)"
      and l: "length idxs = length (slice_to (out_batch_size s1) (rp (unread_count (read s1))))"
      by blast
    from index_put_True_map [OF put] sv nb
    have "next_batch rp s = Some (Inr (Single (map (\<lambda>j. a ! j) idxs)),
        s1\<lparr>read := map (\<lambda>i. read s1 ! i \<or> i \<in> set idxs) [0..<length (read s1)]\<rparr>)"
      by simp
    with d l len True a show ?thesis by auto
  next
    case False
    with s1 obtain a_in a_out where a: "activations_in s1 = Some a_in" "activations_out s1 = Some a_out"
      "length (read s1) = length a_in" "length a_out = length a_in"
      by (auto simp: synced_def split: option.splits)
    from serve_randperm_in_to_out [OF assms(2,5) False a] obtain idxs rd' where
      sv: "serve rp s1 = (Inr (Pair (map (\<lambda>j. a_in ! j) idxs) (map (\<lambda>j. a_out ! j) idxs)), s1\<lparr>read := rd'\<rparr>)"
      and put: "index_put_True (read s1) idxs = Inr rd'"
      and d: "distinct idxs" "set idxs \<subseteq> unread_set (read s1)"
      and l: "length idxs = length (slice_to (out_batch_size s1) (rp (unread_count (read s1))))"
      by blast
    from index_put_True_map [OF put] sv nb
    have "next_batch rp s = Some (Inr (Pair (map (\<lambda>j. a_in ! j) idxs) (map (\<lambda>j. a_out ! j) idxs)),
        s1\<lparr>read := map (\<lambda>i. read s1 ! i \<or> i \<in> set idxs) [0..<length (read s1)]\<rparr>)"
      by simp
    with d l len False a show ?thesis by auto
  qed
qed

theorem next_batch_serves_unread_rows_witness:
  "synced (scenario_with [101, 102, 103, 104, 105, 106, 107, 108]
        [True, True, False, False, False, False, False, False] [[9, 10, 11, 12], [13, 14, 15, 16]]) \<and>
   is_randperm (\<lambda>n. rev [0..<n]) \<and>
   (\<exists>idxs b s'. next_batch (\<lambda>n. rev [0..<n])
        (scenario_with [101, 102, 103, 104, 105, 106, 107, 108]
          [True, True, False, False, False, False, False, False] [[9, 10, 11, 12], [13, 14, 15, 16]])
        = Some (Inr b, s') \<and>
      distinct idxs \<and> length idxs = 2 \<and>
      b = Single (map (\<lambda>j. [101, 102, 103, 104, 105, 106, 107, 108] ! j) idxs))"
proof -
  let ?s = "scenario_with [101, 102, 103, 104, 105, 106, 107, 108]
        [True, True, False, False, False, False, False, False] [[9, 10, 11, 12], [13, 14, 15, 16]]"
  have h: "synced ?s" "is_randperm (\<lambda>n. rev [0..<n])" "0 \<le> out_batch_size ?s"
    by (simp_all add: scenario_with_def synced_def is_randperm_def)
  have low: "if below_threshold ?s = Inr True
         then refresh ?s = Some (Inr (), ?s) else below_threshold ?s = Inr False \<and> ?s = ?s"
    by (simp add: scenario_with_def unread_count_def below_threshold_def tensor_lt_def)
  have ne: "unread_count (read ?s) \<noteq> 1" by (simp add: scenario_with_def unread_count_def)
  have f: "io ?s = ''out''" "activations ?s = Some [101, 102, 103, 104, 105, 106, 107, 108]"
    "min (nat (out_batch_size ?s)) (unread_count (read ?s)) = 2"
    by (simp_all add: scenario_with_def unread_count_def)
  from next_batch_serves_unread_rows [OF h low ne] obtain idxs b where
    "next_batch (\<lambda>n. rev [0..<n]) ?s =
       Some (Inr b, ?s\<lparr>read := map (\<lambda>i. read ?s ! i \<or> i \<in> set idxs) [0..<length (read ?s)]\<rparr>)"
    "distinct idxs" "length idxs = 2"
    "b = Single (map (\<lambda>j. [101, 102, 103, 104, 105, 106, 107, 108] ! j) idxs)"
    unfolding f by auto
  then have "\<exists>idxs b s'. next_batch (\<lambda>n. rev [0..<n]) ?s = Some (Inr b, s') \<and>
      distinct idxs \<and> length idxs = 2 \<and>
      b = Single (map (\<lambda>j. [101, 102, 103, 104, 105, 106, 107, 108] ! j) idxs)"
    by blast
  with h show ?thesis by simp
qed

subsection \<open>A width that \<open>t.empty\<close> refuses\<close>

text \<open>
  When the width of an active tap is supplied or inferred and is negative, construction
  raises \<open>RuntimeError\<close>: \<open>t.empty(0, d)\<close> makes no tensor of a negative dimension.
\<close>

theorem init_negative_width_raises:
  assumes "- (2 ^ 63) \<le> d" and "d < 0"
  shows "ActivationBuffer_init dat mdl sub (Some d) out_feats ''in'' n c ib ob = Inl RuntimeError \<and>
     ActivationBuffer_init dat mdl sub in_feats (Some d) ''out'' n c ib ob = Inl RuntimeError \<and>
     ActivationBuffer_init dat mdl sub (Some d) (Some d') ''in_to_out'' n c ib ob
       = Inl RuntimeError"
  using assms by (simp add: ActivationBuffer_init_def t_empty_def)

theorem init_negative_width_raises_witness:
  "- (2 ^ 63) \<le> (- 1 :: int) \<and> (- 1 :: int) < 0 \<and>
   ActivationBuffer_init [[1, 2]] pad_model \<lparr>in_features = None, out_features = None\<rparr>
     None (Some (- 1)) ''out'' 1 2 1 1 = Inl RuntimeError"
  using init_negative_width_raises [of "- 1" "[[1, 2]]" pad_model
      "\<lparr>in_features = None, out_features = None\<rparr>" None 1 2 1 1 None 0]
  by simp

subsection \<open>A threshold beyond int64\<close>

text \<open>
  Line 75 compares an int64 tensor with the Python integer \<open>n_ctxs * ctx_len // 2\<close>. With a
  threshold of \<open>2^63\<close> the comparison is false: the call on the new, empty buffer does not
  refresh and returns an empty batch, although the source has texts. With a threshold of
  \<open>2^64\<close> the call raises \<open>OverflowError\<close>.
\<close>

theorem threshold_beyond_int64:
  "n_ctxs wide * ctx_len wide div 2 = 2 ^ 63 \<and> unread_count (read wide) = 0 \<and>
   data wide = [[1, 2, 3, 4], [5, 6, 7, 8]] \<and>
   next_batch (\<lambda>n. [0..<n]) wide = Some (Inr (Single []), wide) \<and>
   next_batch (\<lambda>n. [0..<n]) (wide\<lparr>n_ctxs := 2 ^ 65\<rparr>)
     = Some (Inl OverflowError, wide\<lparr>n_ctxs := 2 ^ 65\<rparr>)"
proof -
  have "next_batch (\<lambda>n. [0..<n]) wide = Some (Inr (Single []), wide)"
    by (simp add: wide_def scenario_with_def next_batch_def below_threshold_def tensor_lt_def
        unread_count_def serve_def select_idxs_def nonzero_def squeeze_def slice_to_def
        index_rows_def index_put_True_def Let_def)
  moreover have "next_batch (\<lambda>n. [0..<n]) (wide\<lparr>n_ctxs := 2 ^ 65\<rparr>)
     = Some (Inl OverflowError, wide\<lparr>n_ctxs := 2 ^ 65\<rparr>)"
    by (simp add: wide_def scenario_with_def next_batch_def below_threshold_def tensor_lt_def
        unread_count_def)
  ultimately show ?thesis
    by (simp add: wide_def scenario_with_def unread_count_def)
qed

end
